theory Spec2Isabelle
  imports Main
begin

section \<open>Data model of the Locator\<close>

type_synonym path = string

text \<open>
  Modelled from the spec: the \<open>Location\<close> type is declared in \<open>postcss.js\<close>, which is not
  among the sources. The spec gives it as a file path, a 1-based line and a 0-based column.
\<close>

record Location =
  file_path :: string
  line :: nat
  column :: nat

text \<open>The exported token; \<open>importedName\<close> is an optional field.\<close>

record Token =
  name :: string
  importedName :: "string option"
  originalLocation :: Location

record LoadResult =
  dependencies :: "path list"
  tokens :: "Token list"

record CacheEntry =
  mtime :: int
  result :: LoadResult

text \<open>
  Every \<open>throw\<close> and every rejected promise is a value of this type. The file system, the
  transformer, the resolver and the parser are external and reject with errors of their own.
\<close>

datatype error =
    ConcurrentLoad
  | CouldNotResolve string path
  | UnsupportedProtocol string
  | IOError path
  | CssSyntaxError path
  | ExternalError string
  | TypeError

subsection \<open>What the transformer returns\<close>

datatype Dep = DepString string | DepURL string string

datatype SourceMap = MapString string | MapObject string

record TransformResult =
  tr_css :: string
  tr_map :: "SourceMap option"
  tr_dependencies :: "Dep list"

subsection \<open>What the parser and the node collectors return\<close>

record ImportEntry =
  importedTokenName :: string
  localTokenName :: string

datatype ParsedAtValue =
    ValueDeclaration string Location
  | ValueImportDeclaration string "ImportEntry list"

text \<open>
  The parsing helpers (\<open>postcss.parse\<close>, \<open>generateLocalTokenNames\<close>, \<open>collectNodes\<close>,
  \<open>parseAtImport\<close>, \<open>parseAtValue\<close> and the two \<open>getOriginalLocationOf...\<close> functions) are not
  among the sources. A parsed sheet is what \<open>_load\<close> reads off them: the local token names,
  for every collected \<open>@import\<close> the value of \<open>parseAtImport\<close> (\<open>None\<close> for \<open>undefined\<close>), for
  every class selector its value with its original location, and for every \<open>@value\<close> the
  value of \<open>parseAtValue\<close> (a declaration carrying its original location). A failure of
  one of them is an error of \<open>parse\<close>.
\<close>

record Sheet =
  localTokenNames :: "string list"
  atImports :: "string option list"
  classSelectors :: "(string \<times> Location) list"
  atValues :: "ParsedAtValue list"

subsection \<open>The outside world during one top-level load\<close>

text \<open>
  \<open>stat\<close> gives the modification time in milliseconds, the transformer and the user's
  resolver return \<open>None\<close> for \<open>false\<close>. The transformer is applied to the source and the
  path of the file (the strict resolver and \<open>isIgnoredSpecifier\<close> that it also receives are
  fixed); the resolver to the specifier and the requesting file. The world stays the same
  during a top-level load.
\<close>

record world =
  stat :: "path \<Rightarrow> error + int"
  readFile :: "path \<Rightarrow> error + string"
  transformer :: "(string \<Rightarrow> path \<Rightarrow> error + TransformResult option) option"
  resolver :: "string \<Rightarrow> path \<Rightarrow> error + path option"
  parse :: "string \<Rightarrow> path \<Rightarrow> SourceMap option \<Rightarrow> error + Sheet"

subsection \<open>The state of a Locator\<close>

text \<open>
  The fields \<open>cache\<close> and \<open>loading\<close> of the class, and the calls made so far into the file
  system and the resolver, in order, so that a property can say which calls a load makes.
\<close>

datatype event = Stat path | ReadFile path | Resolve string path

record locator =
  cache :: "path \<rightharpoonup> CacheEntry"
  loading :: bool
  trace :: "event list"

definition init_locator :: locator where
  "init_locator = \<lparr>cache = Map.empty, loading = False, trace = []\<rparr>"

text \<open>
  A computation either does not return within its fuel (\<open>None\<close>), or it returns an error or
  a value together with the state it leaves.
\<close>

type_synonym 'a outcome = "((error + 'a) \<times> locator) option"

definition bind_outcome :: "'a outcome \<Rightarrow> ('a \<Rightarrow> locator \<Rightarrow> 'b outcome) \<Rightarrow> 'b outcome" where
  "bind_outcome m f =
     (case m of
        None \<Rightarrow> None
      | Some (Inl e, st) \<Rightarrow> Some (Inl e, st)
      | Some (Inr x, st) \<Rightarrow> f x st)"

section \<open>Helpers\<close>

definition startsWith :: "string \<Rightarrow> string \<Rightarrow> bool" where
  "startsWith s p \<longleftrightarrow> take (length p) s = p"

definition endsWith :: "string \<Rightarrow> string \<Rightarrow> bool" where
  "endsWith s p \<longleftrightarrow> length p \<le> length s \<and> drop (length s - length p) s = p"

definition isIgnoredSpecifier :: "string \<Rightarrow> bool" where
  "isIgnoredSpecifier specifier \<longleftrightarrow>
     startsWith specifier ''http://'' \<or> startsWith specifier ''https://''"

text \<open>
  Modelled from the spec: \<open>unique\<close> and \<open>uniqueBy\<close> live in \<open>util.js\<close>, which is not among the
  sources. The spec has them de-duplicate preserving first-seen order; \<open>uniqueBy\<close> compares
  the keys its function computes.
\<close>

fun uniqueBy_from :: "'k list \<Rightarrow> ('a \<Rightarrow> 'k) \<Rightarrow> 'a list \<Rightarrow> 'a list" where
  "uniqueBy_from keys fn [] = []"
| "uniqueBy_from keys fn (el # arr) =
     (if fn el \<in> set keys then uniqueBy_from keys fn arr
      else el # uniqueBy_from (fn el # keys) fn arr)"

definition uniqueBy :: "'a list \<Rightarrow> ('a \<Rightarrow> 'k) \<Rightarrow> 'a list" where
  "uniqueBy arr fn = uniqueBy_from [] fn arr"

definition unique :: "'a list \<Rightarrow> 'a list" where
  "unique arr = uniqueBy arr (\<lambda>el. el)"

text \<open>
  \<open>JSON.stringify(token)\<close>: the value it serialises, an object listing \<open>name\<close>, then
  \<open>importedName\<close> when the token has one, then \<open>originalLocation\<close>.
\<close>

datatype json = JString string | JNumber nat | JObject "(string \<times> json) list"

definition stringify_location :: "Location \<Rightarrow> json" where
  "stringify_location l =
     JObject [(''filePath'', JString (file_path l)), (''line'', JNumber (line l)),
              (''column'', JNumber (column l))]"

definition stringify :: "Token \<Rightarrow> json" where
  "stringify token =
     (case importedName token of
        None \<Rightarrow>
          JObject [(''name'', JString (name token)),
                   (''originalLocation'', stringify_location (originalLocation token))]
      | Some imported \<Rightarrow>
          JObject [(''name'', JString (name token)), (''importedName'', JString imported),
                   (''originalLocation'', stringify_location (originalLocation token))])"

section \<open>The Locator\<close>

subsection \<open>The strict resolver of the constructor\<close>

text \<open>A \<open>false\<close> of the user's resolver becomes an error naming specifier and request.\<close>

definition strict_resolver :: "world \<Rightarrow> string \<Rightarrow> path \<Rightarrow> locator \<Rightarrow> (error + path) \<times> locator" where
  "strict_resolver w specifier request st =
     (let st' = st\<lparr>trace := trace st @ [Resolve specifier request]\<rparr> in
      case resolver w specifier request of
        Inl e \<Rightarrow> (Inl e, st')
      | Inr None \<Rightarrow> (Inl (CouldNotResolve specifier request), st')
      | Inr (Some resolved) \<Rightarrow> (Inr resolved, st'))"

subsection \<open>isCacheOutdated\<close>

definition do_stat :: "world \<Rightarrow> path \<Rightarrow> locator \<Rightarrow> (error + int) \<times> locator" where
  "do_stat w p st = (stat w p, st\<lparr>trace := trace st @ [Stat p]\<rparr>)"

text \<open>The loop over the dependencies of the cache entry.\<close>

fun dependencies_outdated :: "world \<Rightarrow> path list \<Rightarrow> locator \<Rightarrow> (error + bool) \<times> locator" where
  "dependencies_outdated w [] st = (Inr False, st)"
| "dependencies_outdated w (dependency # rest) st =
     (case cache st dependency of
        None \<Rightarrow> (Inr True, st)
      | Some entry \<Rightarrow>
          (case do_stat w dependency st of
             (Inl e, st') \<Rightarrow> (Inl e, st')
           | (Inr mt, st') \<Rightarrow>
               if mtime entry \<noteq> mt then (Inr True, st')
               else dependencies_outdated w rest st'))"

definition isCacheOutdated :: "world \<Rightarrow> path \<Rightarrow> locator \<Rightarrow> (error + bool) \<times> locator" where
  "isCacheOutdated w filePath st =
     (case cache st filePath of
        None \<Rightarrow> (Inr True, st)
      | Some entry \<Rightarrow>
          (case do_stat w filePath st of
             (Inl e, st') \<Rightarrow> (Inl e, st')
           | (Inr mt, st') \<Rightarrow>
               if mtime entry \<noteq> mt then (Inr True, st')
               else dependencies_outdated w (dependencies (result entry)) st'))"

subsection \<open>readCSS\<close>

text \<open>
  The \<open>map\<close> over the transformer's dependencies throws at the first structured dependency
  whose protocol is not \<open>file:\<close>.
\<close>

fun dep_paths :: "Dep list \<Rightarrow> error + string list" where
  "dep_paths [] = Inr []"
| "dep_paths (DepString dep # rest) =
     (case dep_paths rest of Inl e \<Rightarrow> Inl e | Inr ps \<Rightarrow> Inr (dep # ps))"
| "dep_paths (DepURL protocol pathname # rest) =
     (if protocol \<noteq> ''file:'' then Inl (UnsupportedProtocol protocol)
      else case dep_paths rest of Inl e \<Rightarrow> Inl e | Inr ps \<Rightarrow> Inr (pathname # ps))"

definition readCSS ::
  "world \<Rightarrow> path \<Rightarrow> locator \<Rightarrow> (error + string \<times> SourceMap option \<times> string list) \<times> locator" where
  "readCSS w filePath st =
     (let st' = st\<lparr>trace := trace st @ [ReadFile filePath]\<rparr> in
      case readFile w filePath of
        Inl e \<Rightarrow> (Inl e, st')
      | Inr css \<Rightarrow>
          (case transformer w of
             None \<Rightarrow> (Inr (css, None, []), st')
           | Some transform \<Rightarrow>
               (case transform css filePath of
                  Inl e \<Rightarrow> (Inl e, st')
                | Inr None \<Rightarrow> (Inr (css, None, []), st')
                | Inr (Some r) \<Rightarrow>
                    (case dep_paths (tr_dependencies r) of
                       Inl e \<Rightarrow> (Inl e, st')
                     | Inr deps \<Rightarrow>
                         (Inr (tr_css r, tr_map r,
                               filter (\<lambda>dep. \<not> isIgnoredSpecifier dep) deps), st')))))"

subsection \<open>The default transformer\<close>

text \<open>
  \<open>defaultTransformer\<close> dispatches on the extension; the SCSS and Less backends are not among
  the sources and are parameters.
\<close>

definition defaultTransformer ::
  "(string \<Rightarrow> path \<Rightarrow> error + TransformResult option) \<Rightarrow>
   (string \<Rightarrow> path \<Rightarrow> error + TransformResult option) \<Rightarrow>
   string \<Rightarrow> path \<Rightarrow> error + TransformResult option" where
  "defaultTransformer scssTransformer lessTransformer source from =
     (if endsWith from ''.scss'' then scssTransformer source from
      else if endsWith from ''.less'' then lessTransformer source from
      else Inr None)"

subsection \<open>The loops of \<open>_load\<close>\<close>

text \<open>
  The recursive call of \<open>_load\<close> is the first argument of each loop. The accumulator is the
  pair of the arrays \<open>dependencies\<close> and \<open>tokens\<close> that the loops push to.
\<close>

type_synonym loader = "locator \<Rightarrow> path \<Rightarrow> LoadResult outcome"

fun load_atImports ::
  "loader \<Rightarrow> world \<Rightarrow> path \<Rightarrow> string option list \<Rightarrow> path list \<times> Token list \<Rightarrow> locator \<Rightarrow>
   (path list \<times> Token list) outcome" where
  "load_atImports ld w filePath [] acc st = Some (Inr acc, st)"
| "load_atImports ld w filePath (atImport # rest) acc st =
     (case atImport of
        None \<Rightarrow> load_atImports ld w filePath rest acc st
      | Some importedSheetPath \<Rightarrow>
          if importedSheetPath = [] then load_atImports ld w filePath rest acc st
          else if isIgnoredSpecifier importedSheetPath then load_atImports ld w filePath rest acc st
          else
            bind_outcome (Some (strict_resolver w importedSheetPath filePath st)) (\<lambda>from st1.
            bind_outcome (ld st1 from) (\<lambda>r st2.
              load_atImports ld w filePath rest
                (fst acc @ from # dependencies r, snd acc @ tokens r) st2)))"

text \<open>The tokens of the class selectors that match a local token name.\<close>

definition class_tokens :: "Sheet \<Rightarrow> Token list" where
  "class_tokens ast =
     map (\<lambda>(value, location). \<lparr>name = value, importedName = None, originalLocation = location\<rparr>)
       (filter (\<lambda>(value, location). value \<in> set (localTokenNames ast)) (classSelectors ast))"

text \<open>The inner loop over the tokens of the sheet a \<open>@value ... from\<close> imports from.\<close>

fun import_tokens :: "ImportEntry list \<Rightarrow> Token list \<Rightarrow> Token list" where
  "import_tokens imports [] = []"
| "import_tokens imports (token # rest) =
     (case find (\<lambda>i. importedTokenName i = name token) imports of
        None \<Rightarrow> import_tokens imports rest
      | Some matchedImport \<Rightarrow>
          (if localTokenName matchedImport = importedTokenName matchedImport
           then \<lparr>name = localTokenName matchedImport, importedName = None,
                 originalLocation = originalLocation token\<rparr>
           else \<lparr>name = localTokenName matchedImport,
                 importedName = Some (importedTokenName matchedImport),
                 originalLocation = originalLocation token\<rparr>)
          # import_tokens imports rest)"

fun load_atValues ::
  "loader \<Rightarrow> world \<Rightarrow> path \<Rightarrow> ParsedAtValue list \<Rightarrow> path list \<times> Token list \<Rightarrow> locator \<Rightarrow>
   (path list \<times> Token list) outcome" where
  "load_atValues ld w filePath [] acc st = Some (Inr acc, st)"
| "load_atValues ld w filePath (ValueDeclaration tokenName location # rest) acc st =
     load_atValues ld w filePath rest
       (fst acc, snd acc @ [\<lparr>name = tokenName, importedName = None, originalLocation = location\<rparr>]) st"
| "load_atValues ld w filePath (ValueImportDeclaration from_spec imports # rest) acc st =
     (if isIgnoredSpecifier from_spec then load_atValues ld w filePath rest acc st
      else
        bind_outcome (Some (strict_resolver w from_spec filePath st)) (\<lambda>from st1.
        bind_outcome (ld st1 from) (\<lambda>r st2.
          load_atValues ld w filePath rest
            (fst acc @ from # dependencies r, snd acc @ import_tokens imports (tokens r)) st2)))"

subsection \<open>\<open>_load\<close> and \<open>load\<close>\<close>

text \<open>The truthiness test \<open>map ? ... : ...\<close>: an empty string counts as no map.\<close>

definition prev_map :: "SourceMap option \<Rightarrow> SourceMap option" where
  "prev_map m = (case m of Some (MapString []) \<Rightarrow> None | _ \<Rightarrow> m)"

text \<open>From the \<open>stat\<close> after the cache check to the end of the loop over the \<open>@value\<close>s.\<close>

definition gather ::
  "loader \<Rightarrow> world \<Rightarrow> path \<Rightarrow> locator \<Rightarrow> (int \<times> path list \<times> Token list) outcome" where
  "gather ld w filePath st =
     bind_outcome (Some (do_stat w filePath st)) (\<lambda>mt st1.
     bind_outcome (Some (readCSS w filePath st1)) (\<lambda>(css, smap, deps) st2.
     bind_outcome (Some (parse w css filePath (prev_map smap), st2)) (\<lambda>ast st3.
     bind_outcome (load_atImports ld w filePath (atImports ast) (deps, []) st3) (\<lambda>acc1 st4.
     bind_outcome (load_atValues ld w filePath (atValues ast)
                     (fst acc1, snd acc1 @ class_tokens ast) st4) (\<lambda>acc2 st5.
       Some (Inr (mt, fst acc2, snd acc2), st5))))))"

text \<open>The result that is stored and returned.\<close>

definition finalize :: "path \<Rightarrow> path list \<Rightarrow> Token list \<Rightarrow> LoadResult" where
  "finalize filePath deps toks =
     \<lparr>dependencies = filter (\<lambda>dep. dep \<noteq> filePath) (unique deps),
      tokens = uniqueBy toks stringify\<rparr>"

definition load_body :: "loader \<Rightarrow> world \<Rightarrow> locator \<Rightarrow> path \<Rightarrow> LoadResult outcome" where
  "load_body ld w st filePath =
     bind_outcome (Some (isCacheOutdated w filePath st)) (\<lambda>outdated st1.
       if \<not> outdated then
         (case cache st1 filePath of
            None \<Rightarrow> Some (Inl TypeError, st1)
          | Some cacheEntry \<Rightarrow> Some (Inr (result cacheEntry), st1))
       else
         bind_outcome (gather ld w filePath st1) (\<lambda>(mt, deps, toks) st2.
           let r = finalize filePath deps toks in
           Some (Inr r, st2\<lparr>cache := (cache st2)(filePath \<mapsto> \<lparr>mtime = mt, result = r\<rparr>)\<rparr>)))"

text \<open>
  \<open>_load\<close> calls itself for every import, and nothing bounds the depth of these calls. The
  first argument is the number of nested calls allowed; \<open>None\<close> says they were not enough.
\<close>

fun load' :: "nat \<Rightarrow> world \<Rightarrow> locator \<Rightarrow> path \<Rightarrow> LoadResult outcome" where
  "load' 0 w st filePath = None"
| "load' (Suc n) w st filePath = load_body (load' n w) w st filePath"

text \<open>The public \<open>load\<close>, with the flag cleared in the \<open>finally\<close>.\<close>

definition load :: "nat \<Rightarrow> world \<Rightarrow> locator \<Rightarrow> path \<Rightarrow> LoadResult outcome" where
  "load n w st filePath =
     (if loading st then Some (Inl ConcurrentLoad, st)
      else
        (case load' n w (st\<lparr>loading := True\<rparr>) filePath of
           None \<Rightarrow> None
         | Some (r, st') \<Rightarrow> Some (r, st'\<lparr>loading := False\<rparr>)))"

section \<open>Vocabulary of the properties\<close>

subsection \<open>What a sheet imports\<close>

text \<open>
  The specifiers that the two loops resolve: those of the \<open>@import\<close>s that are neither
  missing, empty nor ignored, and those of the \<open>@value ... from\<close> declarations that are not
  ignored.
\<close>


fun import_specs :: "string option list \<Rightarrow> string list" where
  "import_specs [] = []"
| "import_specs (None # rest) = import_specs rest"
| "import_specs (Some s # rest) =
     (if s = [] \<or> isIgnoredSpecifier s then import_specs rest else s # import_specs rest)"

fun value_specs :: "ParsedAtValue list \<Rightarrow> string list" where
  "value_specs [] = []"
| "value_specs (ValueDeclaration tokenName location # rest) = value_specs rest"
| "value_specs (ValueImportDeclaration from_spec imports # rest) =
     (if isIgnoredSpecifier from_spec then value_specs rest else from_spec # value_specs rest)"

definition sheet_specs :: "Sheet \<Rightarrow> string list" where
  "sheet_specs ast = import_specs (atImports ast) @ value_specs (atValues ast)"

text \<open>
  The dependencies that \<open>readCSS\<close> returns for a file and the sheet parsed from its CSS,
  which depend on the world only, and the paths the specifiers of that sheet resolve to.
\<close>

definition sheet_of :: "world \<Rightarrow> path \<Rightarrow> error + (path list \<times> Sheet)" where
  "sheet_of w filePath =
     (case fst (readCSS w filePath init_locator) of
        Inl e \<Rightarrow> Inl e
      | Inr (css, smap, deps) \<Rightarrow>
          (case parse w css filePath (prev_map smap) of
             Inl e \<Rightarrow> Inl e
           | Inr ast \<Rightarrow> Inr (deps, ast)))"

definition import_targets :: "world \<Rightarrow> path \<Rightarrow> path list" where
  "import_targets w p =
     (case sheet_of w p of
        Inl e \<Rightarrow> []
      | Inr (deps0, ast) \<Rightarrow>
          concat (map (\<lambda>s. case resolver w s p of Inr (Some q) \<Rightarrow> [q] | _ \<Rightarrow> [])
                    (sheet_specs ast)))"

text \<open>
  The token that the inner loop pushes for an entry of a \<open>@value ... from\<close> declaration and
  a token of the source sheet.
\<close>

definition aliased :: "ImportEntry \<Rightarrow> Token \<Rightarrow> Token" where
  "aliased i src =
     \<lparr>name = localTokenName i,
      importedName = (if localTokenName i = importedTokenName i then None
                      else Some (importedTokenName i)),
      originalLocation = originalLocation src\<rparr>"

subsection \<open>What the loops have done\<close>

text \<open>
  \<open>T\<close> relates a state to the states that a computation may lead to. During a run of the
  loops from \<open>st\<close> to \<open>st'\<close>, the specifier \<open>s\<close> resolved to \<open>q\<close> and the loader returned the
  result \<open>r\<close> for \<open>q\<close>; after the loops, every such specifier was handled this way, and every
  path in the array of dependencies was there before or was pushed for one of them.
\<close>

definition loaded_via ::
  "(locator \<Rightarrow> locator \<Rightarrow> bool) \<Rightarrow> loader \<Rightarrow> world \<Rightarrow> path \<Rightarrow> locator \<Rightarrow> locator \<Rightarrow>
   string \<Rightarrow> path \<Rightarrow> LoadResult \<Rightarrow> bool" where
  "loaded_via T ld w filePath st st' s q r \<longleftrightarrow>
     resolver w s filePath = Inr (Some q) \<and>
     (\<exists>s1 s2. T st s1 \<and> ld s1 q = Some (Inr r, s2) \<and> T s2 st')"

definition loop_post ::
  "(locator \<Rightarrow> locator \<Rightarrow> bool) \<Rightarrow> loader \<Rightarrow> world \<Rightarrow> path \<Rightarrow> string list \<Rightarrow> path list \<Rightarrow>
   locator \<Rightarrow> locator \<Rightarrow> path list \<Rightarrow> bool" where
  "loop_post T ld w filePath specs deps st st' deps' \<longleftrightarrow>
     (\<forall>s\<in>set specs. \<exists>q r. loaded_via T ld w filePath st st' s q r) \<and>
     (\<forall>d\<in>set deps'. d \<in> set deps \<or>
        (\<exists>s\<in>set specs. \<exists>q r. loaded_via T ld w filePath st st' s q r \<and>
           (d = q \<or> d \<in> set (dependencies r))))"

subsection \<open>The cache\<close>

text \<open>A path has a cache entry whose \<open>mtime\<close> is the modification time the file has now.\<close>

definition fresh :: "world \<Rightarrow> (path \<rightharpoonup> CacheEntry) \<Rightarrow> path \<Rightarrow> bool" where
  "fresh w c p \<longleftrightarrow> (case c p of None \<Rightarrow> False | Some entry \<Rightarrow> stat w p = Inr (mtime entry))"

text \<open>The states a Locator can be in between two top-level loads.\<close>

inductive reachable :: "locator \<Rightarrow> bool" where
  init: "reachable init_locator"
| step: "reachable st \<Longrightarrow> load n w st filePath = Some (r, st') \<Longrightarrow> reachable st'"

text \<open>
  A result for a file lists neither the file nor a path twice, and no token twice; so does
  every result in the cache.
\<close>

definition result_ok :: "path \<Rightarrow> LoadResult \<Rightarrow> bool" where
  "result_ok p r \<longleftrightarrow>
     p \<notin> set (dependencies r) \<and> distinct (dependencies r) \<and> distinct (tokens r)"

definition cache_ok :: "(path \<rightharpoonup> CacheEntry) \<Rightarrow> bool" where
  "cache_ok c \<longleftrightarrow> (\<forall>p entry. c p = Some entry \<longrightarrow> result_ok p (result entry))"

text \<open>The position at which an element is first pushed to an array.\<close>

definition first_index :: "'a list \<Rightarrow> 'a \<Rightarrow> nat" where
  "first_index xs x = length (takeWhile (\<lambda>y. y \<noteq> x) xs)"

text \<open>
  The contract of the resolver: what it returns is a path of the file system, not a remote
  specifier. The dependencies stored in the cache are then no remote specifiers either.
\<close>

definition resolver_contract :: "world \<Rightarrow> bool" where
  "resolver_contract w \<longleftrightarrow>
     (\<forall>s request p. resolver w s request = Inr (Some p) \<longrightarrow> \<not> isIgnoredSpecifier p)"

definition no_remote :: "LoadResult \<Rightarrow> bool" where
  "no_remote r \<longleftrightarrow> (\<forall>d\<in>set (dependencies r). \<not> isIgnoredSpecifier d)"

definition deps_clean :: "(path \<rightharpoonup> CacheEntry) \<Rightarrow> bool" where
  "deps_clean c \<longleftrightarrow> (\<forall>p entry. c p = Some entry \<longrightarrow> no_remote (result entry))"


section \<open>Examples\<close>

text \<open>
  A project of plain CSS. \<open>/a.css\<close> has a remote \<open>@import\<close>, an \<open>@import\<close> that cannot be
  parsed and an \<open>@import\<close> of \<open>./b.css\<close>, two class selectors of which \<open>a\<close> is local, and
  imports \<open>x\<close>, \<open>y as z\<close>, \<open>y as z2\<close> and \<open>nope as n\<close> from \<open>./b.css\<close>. \<open>/b.css\<close> has the class
  \<open>b\<close> and the values \<open>x\<close> and \<open>y\<close>. \<open>/m.css\<close> imports \<open>./b.css\<close> and \<open>./c.css\<close>.
\<close>

definition ex_loc :: "string \<Rightarrow> nat \<Rightarrow> Location" where
  "ex_loc f l = \<lparr>file_path = f, line = l, column = 0\<rparr>"

definition ex_imports :: "ImportEntry list" where
  "ex_imports =
     [\<lparr>importedTokenName = ''x'', localTokenName = ''x''\<rparr>,
      \<lparr>importedTokenName = ''y'', localTokenName = ''z''\<rparr>,
      \<lparr>importedTokenName = ''y'', localTokenName = ''z2''\<rparr>,
      \<lparr>importedTokenName = ''nope'', localTokenName = ''n''\<rparr>]"

definition ex_sheet_a :: Sheet where
  "ex_sheet_a = \<lparr>localTokenNames = [''a''],
     atImports = [Some ''https://cdn/x.css'', None, Some ''./b.css''],
     classSelectors = [(''a'', ex_loc ''/a.css'' 3), (''g'', ex_loc ''/a.css'' 4)],
     atValues = [ValueImportDeclaration ''./b.css'' ex_imports]\<rparr>"

definition ex_sheet_b :: Sheet where
  "ex_sheet_b = \<lparr>localTokenNames = [''b''],
     atImports = [],
     classSelectors = [(''b'', ex_loc ''/b.css'' 1)],
     atValues = [ValueDeclaration ''x'' (ex_loc ''/b.css'' 2),
                 ValueDeclaration ''y'' (ex_loc ''/b.css'' 3)]\<rparr>"

definition ex_sheet_m :: Sheet where
  "ex_sheet_m = \<lparr>localTokenNames = [], atImports = [Some ''./b.css'', Some ''./c.css''],
     classSelectors = [], atValues = []\<rparr>"

definition ex_sheet_c :: Sheet where
  "ex_sheet_c = \<lparr>localTokenNames = [''c''], atImports = [],
     classSelectors = [(''c'', ex_loc ''/c.css'' 1)], atValues = []\<rparr>"

definition ex_world :: world where
  "ex_world = \<lparr>
     stat = (\<lambda>p. if p = ''/a.css'' then Inr 10 else if p = ''/b.css'' then Inr 20
                 else if p = ''/c.css'' then Inr 30 else if p = ''/m.css'' then Inr 40
                 else Inl (IOError p)),
     readFile = (\<lambda>p. if p = ''/a.css'' then Inr ''A'' else if p = ''/b.css'' then Inr ''B''
                     else if p = ''/c.css'' then Inr ''C'' else if p = ''/m.css'' then Inr ''M''
                     else Inl (IOError p)),
     transformer = None,
     resolver = (\<lambda>s r. if s = ''./b.css'' then Inr (Some ''/b.css'')
                        else if s = ''./c.css'' then Inr (Some ''/c.css'') else Inr None),
     parse = (\<lambda>css from m. if css = ''A'' then Inr ex_sheet_a
                             else if css = ''B'' then Inr ex_sheet_b
                             else if css = ''C'' then Inr ex_sheet_c
                             else if css = ''M'' then Inr ex_sheet_m
                             else Inl (CssSyntaxError from))\<rparr>"

definition ex_result_b :: LoadResult where
  "ex_result_b = \<lparr>dependencies = [],
     tokens = [\<lparr>name = ''b'', importedName = None, originalLocation = ex_loc ''/b.css'' 1\<rparr>,
               \<lparr>name = ''x'', importedName = None, originalLocation = ex_loc ''/b.css'' 2\<rparr>,
               \<lparr>name = ''y'', importedName = None, originalLocation = ex_loc ''/b.css'' 3\<rparr>]\<rparr>"

text \<open>The same project after \<open>/c.css\<close> was deleted.\<close>

definition ex_deleted_world :: world where
  "ex_deleted_world = ex_world\<lparr>
     stat := (\<lambda>p. if p = ''/c.css'' then Inl (IOError p) else stat ex_world p)\<rparr>"

text \<open>
  A project with the default transformer. The SCSS backend reports the file itself and
  \<open>/b.scss\<close> as the files it loaded for \<open>/a.scss\<close>; the Less backend handles nothing.
\<close>

definition ex_scss :: "string \<Rightarrow> path \<Rightarrow> error + TransformResult option" where
  "ex_scss source from =
     Inr (Some \<lparr>tr_css = ''A2'', tr_map = Some (MapObject ''map''),
                tr_dependencies = [DepURL ''file:'' ''/a.scss'', DepURL ''file:'' ''/b.scss'']\<rparr>)"

definition ex_less :: "string \<Rightarrow> path \<Rightarrow> error + TransformResult option" where
  "ex_less source from = Inr None"

definition ex_sheet_scss :: Sheet where
  "ex_sheet_scss = \<lparr>localTokenNames = [''s''], atImports = [],
     classSelectors = [(''s'', ex_loc ''/a.scss'' 1)], atValues = []\<rparr>"

definition ex_sheet_plain :: Sheet where
  "ex_sheet_plain = \<lparr>localTokenNames = [''p''], atImports = [],
     classSelectors = [(''p'', ex_loc ''/plain.css'' 1)], atValues = []\<rparr>"

definition ex_scss_world :: world where
  "ex_scss_world = \<lparr>
     stat = (\<lambda>p. if p = ''/a.scss'' then Inr 30 else if p = ''/b.scss'' then Inr 40
                 else if p = ''/plain.css'' then Inr 50 else Inl (IOError p)),
     readFile = (\<lambda>p. if p = ''/a.scss'' then Inr ''S'' else if p = ''/plain.css'' then Inr ''P''
                     else Inl (IOError p)),
     transformer = Some (defaultTransformer ex_scss ex_less),
     resolver = (\<lambda>s r. Inr None),
     parse = (\<lambda>css from m. if css = ''A2'' then Inr ex_sheet_scss
                             else if css = ''P'' then Inr ex_sheet_plain
                             else Inl (CssSyntaxError from))\<rparr>"

text \<open>
  The result of \<open>/a.scss\<close> and the state after its first load; the same project after
  \<open>/b.scss\<close> was deleted, where the SCSS backend fails on \<open>/a.scss\<close>.
\<close>

definition ex_scss_result :: LoadResult where
  "ex_scss_result = \<lparr>dependencies = [''/b.scss''],
     tokens = [\<lparr>name = ''s'', importedName = None, originalLocation = ex_loc ''/a.scss'' 1\<rparr>]\<rparr>"

definition ex_scss_cached :: locator where
  "ex_scss_cached = \<lparr>cache = [''/a.scss'' \<mapsto> \<lparr>mtime = 30, result = ex_scss_result\<rparr>],
     loading = False, trace = [Stat ''/a.scss'', ReadFile ''/a.scss'']\<rparr>"

definition ex_scss_deleted_world :: world where
  "ex_scss_deleted_world = ex_scss_world\<lparr>
     stat := (\<lambda>p. if p = ''/b.scss'' then Inl (IOError p) else stat ex_scss_world p),
     transformer := Some (defaultTransformer
       (\<lambda>source from. Inl (ExternalError ''stylesheet to import not found'')) ex_less)\<rparr>"

text \<open>
  A sheet that imports itself, and two sheets that import each other, one with \<open>@import\<close>
  and one with \<open>@value ... from\<close>.
\<close>

definition ex_cycle_world :: world where
  "ex_cycle_world = \<lparr>
     stat = (\<lambda>p. Inr 1),
     readFile = (\<lambda>p. if p = ''/self.css'' then Inr ''S'' else if p = ''/p.css'' then Inr ''P''
                     else if p = ''/q.css'' then Inr ''Q'' else Inl (IOError p)),
     transformer = None,
     resolver = (\<lambda>s r. if s = ''./self.css'' then Inr (Some ''/self.css'')
                        else if s = ''./p.css'' then Inr (Some ''/p.css'')
                        else if s = ''./q.css'' then Inr (Some ''/q.css'') else Inr None),
     parse = (\<lambda>css from m.
        if css = ''S'' then Inr \<lparr>localTokenNames = [''a''], atImports = [Some ''./self.css''],
                                 classSelectors = [(''a'', ex_loc ''/self.css'' 2)], atValues = []\<rparr>
        else if css = ''P'' then Inr \<lparr>localTokenNames = [], atImports = [Some ''./q.css''],
                                 classSelectors = [], atValues = []\<rparr>
        else if css = ''Q'' then Inr \<lparr>localTokenNames = [], atImports = [],
                                 classSelectors = [],
                                 atValues = [ValueImportDeclaration ''./p.css'' []]\<rparr>
        else Inl (CssSyntaxError from))\<rparr>"

section \<open>Auxiliary lemmas\<close>

lemma bind_outcome_simps [simp]:
  "bind_outcome None f = None"
  "bind_outcome (Some (Inl e, st)) f = Some (Inl e, st)"
  "bind_outcome (Some (Inr x, st)) f = f x st"
  by (simp_all add: bind_outcome_def)

lemma bind_outcome_SomeE:
  assumes "bind_outcome m f = Some (r, st')"
  obtains (err) e where "m = Some (Inl e, st')" "r = Inl e"
        | (ok) x st1 where "m = Some (Inr x, st1)" "f x st1 = Some (r, st')"
  using assms by (auto simp: bind_outcome_def split: option.splits sum.splits prod.splits)

lemma strict_resolver_state:
  "snd (strict_resolver w s req st) = st\<lparr>trace := trace st @ [Resolve s req]\<rparr>"
  by (simp add: strict_resolver_def Let_def split: sum.splits option.splits)

lemma strict_resolver_Inr:
  "fst (strict_resolver w s req st) = Inr q \<longleftrightarrow> resolver w s req = Inr (Some q)"
  by (simp add: strict_resolver_def Let_def split: sum.splits option.splits)

lemma strict_resolver_cases:
  assumes "strict_resolver w s req st = (x, st1)"
  shows "st1 = st\<lparr>trace := trace st @ [Resolve s req]\<rparr>"
    and "x = Inr q \<longleftrightarrow> resolver w s req = Inr (Some q)"
  using assms strict_resolver_state[of w s req st] strict_resolver_Inr[of w s req st q]
  by auto

lemma loaded_via_mono:
  assumes tr: "\<And>a b c. T a b \<Longrightarrow> T b c \<Longrightarrow> T a c"
    and "loaded_via T ld w filePath st1 st2 s q r" "T st0 st1" "T st2 st3"
  shows "loaded_via T ld w filePath st0 st3 s q r"
  using assms(2-) unfolding loaded_via_def by (meson tr)

lemma loop_post_step:
  assumes tr: "\<And>a b c. T a b \<Longrightarrow> T b c \<Longrightarrow> T a c"
    and rf: "\<And>a. T a a"
    and res: "resolver w s filePath = Inr (Some q)"
    and t1: "T st sa" and ld: "ld sa q = Some (Inr r, sb)" and t12: "T sa sb"
    and t2: "T sb st'"
    and post: "loop_post T ld w filePath specs (deps @ q # dependencies r) sb st' deps'"
  shows "loop_post T ld w filePath (s # specs) deps st st' deps'"
proof -
  have t02: "T st sb" using tr[OF t1 t12] .
  have hd: "loaded_via T ld w filePath st st' s q r"
    unfolding loaded_via_def using res t1 ld t2 by blast
  have lift: "loaded_via T ld w filePath st st' s' q' r'"
    if "loaded_via T ld w filePath sb st' s' q' r'" for s' q' r'
    using loaded_via_mono[OF tr that t02 rf] .
  have b: "\<forall>x\<in>set (s # specs). \<exists>q r. loaded_via T ld w filePath st st' x q r"
  proof
    fix x assume "x \<in> set (s # specs)"
    then consider "x = s" | "x \<in> set specs" by auto
    then show "\<exists>q r. loaded_via T ld w filePath st st' x q r"
    proof cases
      case 1 with hd show ?thesis by blast
    next
      case 2
      with post obtain q' r' where "loaded_via T ld w filePath sb st' x q' r'"
        unfolding loop_post_def by blast
      from lift[OF this] show ?thesis by blast
    qed
  qed
  have c: "d \<in> set deps \<or>
        (\<exists>x\<in>set (s # specs). \<exists>q r. loaded_via T ld w filePath st st' x q r \<and>
           (d = q \<or> d \<in> set (dependencies r)))" if d: "d \<in> set deps'" for d
  proof -
    from post d have "d \<in> set (deps @ q # dependencies r) \<or>
        (\<exists>x\<in>set specs. \<exists>q r. loaded_via T ld w filePath sb st' x q r \<and>
           (d = q \<or> d \<in> set (dependencies r)))"
      unfolding loop_post_def by blast
    then show ?thesis
    proof
      assume "d \<in> set (deps @ q # dependencies r)"
      then consider "d \<in> set deps" | "d = q \<or> d \<in> set (dependencies r)" by auto
      then show ?thesis
      proof cases
        case 1 then show ?thesis by simp
      next
        case 2 with hd show ?thesis by auto
      qed
    next
      assume "\<exists>x\<in>set specs. \<exists>q r. loaded_via T ld w filePath sb st' x q r \<and>
           (d = q \<or> d \<in> set (dependencies r))"
      then obtain x q' r' where xin: "x \<in> set specs"
        and lv: "loaded_via T ld w filePath sb st' x q' r'"
        and dq: "d = q' \<or> d \<in> set (dependencies r')" by blast
      have "x \<in> set (s # specs)" using xin by simp
      moreover note lift[OF lv] dq
      ultimately show ?thesis by blast
    qed
  qed
  show ?thesis unfolding loop_post_def using b c by blast
qed

lemma loop_post_Nil: "loop_post T ld w filePath [] deps st st' deps"
  by (simp add: loop_post_def)

lemma resolve_load_cases:
  assumes tr: "\<And>a b c. T a b \<Longrightarrow> T b c \<Longrightarrow> T a c"
    and tc: "\<And>a x. T a (a\<lparr>trace := x\<rparr>)"
    and ld: "\<And>a p r b. ld a p = Some (r, b) \<Longrightarrow> T a b"
    and run: "bind_outcome (Some (strict_resolver w s filePath st)) (\<lambda>from sa.
                bind_outcome (ld sa from) (\<lambda>r sb. k from r sb)) = Some (res, st')"
  obtains (fail) e where "res = Inl e" "T st st'"
  | (ok) q r1 sa sb where "resolver w s filePath = Inr (Some q)" "T st sa"
      "ld sa q = Some (Inr r1, sb)" "T sa sb" "k q r1 sb = Some (res, st')"
proof -
  obtain x sa where sr: "strict_resolver w s filePath st = (x, sa)"
    by (cases "strict_resolver w s filePath st")
  have sa: "sa = st\<lparr>trace := trace st @ [Resolve s filePath]\<rparr>"
    using strict_resolver_cases(1)[OF sr] .
  have t01: "T st sa" unfolding sa by (rule tc)
  show thesis
  proof (cases x)
    case (Inl e)
    with run sr have "res = Inl e" "st' = sa" by auto
    with t01 fail show thesis by blast
  next
    case (Inr q)
    then have res: "resolver w s filePath = Inr (Some q)"
      using strict_resolver_cases(2)[OF sr, of q] by simp
    from run sr Inr have "bind_outcome (ld sa q) (\<lambda>r sb. k q r sb) = Some (res, st')"
      by simp
    then show thesis
    proof (cases rule: bind_outcome_SomeE)
      case (err e)
      from tr[OF t01 ld[OF err(1)]] err(2) fail show thesis by blast
    next
      case (ok r1 sb)
      from ok(1) have "T sa sb" by (rule ld)
      with res t01 ok show thesis using that(2) by blast
    qed
  qed
qed

lemma load_atImports_rel:
  assumes tr: "\<And>a b c. T a b \<Longrightarrow> T b c \<Longrightarrow> T a c"
    and rf: "\<And>a. T a a"
    and tc: "\<And>a x. T a (a\<lparr>trace := x\<rparr>)"
    and ld: "\<And>a p r b. ld a p = Some (r, b) \<Longrightarrow> T a b"
    and run: "load_atImports ld w filePath imps acc st = Some (r, st')"
  shows "T st st' \<and>
    (\<forall>acc'. r = Inr acc' \<longrightarrow>
       loop_post T ld w filePath (import_specs imps) (fst acc) st st' (fst acc'))"
  using run
proof (induction imps arbitrary: acc st)
  case Nil
  then show ?case by (auto simp: rf loop_post_Nil)
next
  case (Cons atImport rest)
  show ?case
  proof (cases "\<exists>s. atImport = Some s \<and> s \<noteq> [] \<and> \<not> isIgnoredSpecifier s")
    case False
    then have eq: "load_atImports ld w filePath (atImport # rest) acc st =
        load_atImports ld w filePath rest acc st"
      and sp: "import_specs (atImport # rest) = import_specs rest"
      by (cases atImport; auto)+
    show ?thesis using Cons.IH[of acc st] Cons.prems unfolding eq sp by simp
  next
    case True
    then obtain s where s: "atImport = Some s" "s \<noteq> []" "\<not> isIgnoredSpecifier s" by blast
    have sp: "import_specs (atImport # rest) = s # import_specs rest" using s by simp
    from Cons.prems s have run:
      "bind_outcome (Some (strict_resolver w s filePath st)) (\<lambda>from sa.
         bind_outcome (ld sa from) (\<lambda>r sb.
           load_atImports ld w filePath rest
             (fst acc @ from # dependencies r, snd acc @ tokens r) sb)) = Some (r, st')"
      by simp
show ?thesis
proof (rule resolve_load_cases[where T=T and ld=ld, OF tr tc ld run])
  fix e assume "r = Inl e" "T st st'"
  then show ?thesis by simp
next
  fix q r1 sa sb
  assume ok: "resolver w s filePath = Inr (Some q)" "T st sa"
    "ld sa q = Some (Inr r1, sb)" "T sa sb"
    "load_atImports ld w filePath rest
             (fst acc @ q # dependencies r1, snd acc @ tokens r1) sb = Some (r, st')"
      from Cons.IH[OF ok(5)] have t2: "T sb st'"
        and post: "\<forall>acc'. r = Inr acc' \<longrightarrow> loop_post T ld w filePath (import_specs rest)
                 (fst acc @ q # dependencies r1) sb st' (fst acc')"
        by simp_all
      have "T st st'" using tr[OF tr[OF ok(2) ok(4)] t2] .
      moreover have "loop_post T ld w filePath (import_specs (atImport # rest)) (fst acc) st st' (fst acc')"
        if "r = Inr acc'" for acc'
        unfolding sp
      proof (rule loop_post_step[where sa=sa and sb=sb and q=q and r=r1])
        show "\<And>a b c. T a b \<Longrightarrow> T b c \<Longrightarrow> T a c" by (rule tr)
        show "\<And>a. T a a" by (rule rf)
        show "loop_post T ld w filePath (import_specs rest) (fst acc @ q # dependencies r1)
                sb st' (fst acc')" using post that by blast
      qed (fact ok t2)+
      ultimately show ?thesis by blast
    qed
  qed
qed

lemma load_atValues_rel:
  assumes tr: "\<And>a b c. T a b \<Longrightarrow> T b c \<Longrightarrow> T a c"
    and rf: "\<And>a. T a a"
    and tc: "\<And>a x. T a (a\<lparr>trace := x\<rparr>)"
    and ld: "\<And>a p r b. ld a p = Some (r, b) \<Longrightarrow> T a b"
    and run: "load_atValues ld w filePath vs acc st = Some (r, st')"
  shows "T st st' \<and>
    (\<forall>acc'. r = Inr acc' \<longrightarrow>
       loop_post T ld w filePath (value_specs vs) (fst acc) st st' (fst acc'))"
  using run
proof (induction vs arbitrary: acc st)
  case Nil
  then show ?case by (auto simp: rf loop_post_Nil)
next
  case (Cons v rest)
  show ?case
  proof (cases v)
    case (ValueDeclaration tokenName location)
    with Cons.prems Cons.IH[of "(fst acc, snd acc @ [\<lparr>name = tokenName, importedName = None,
        originalLocation = location\<rparr>])" st]
    show ?thesis by simp
  next
    case (ValueImportDeclaration s imps')
    show ?thesis
    proof (cases "isIgnoredSpecifier s")
      case True
      with Cons.prems Cons.IH[of acc st] ValueImportDeclaration show ?thesis by simp
    next
      case False
      have sp: "value_specs (v # rest) = s # value_specs rest"
        using False ValueImportDeclaration by simp
      from Cons.prems False ValueImportDeclaration have run:
        "bind_outcome (Some (strict_resolver w s filePath st)) (\<lambda>from sa.
           bind_outcome (ld sa from) (\<lambda>r sb.
             load_atValues ld w filePath rest
               (fst acc @ from # dependencies r, snd acc @ import_tokens imps' (tokens r)) sb))
         = Some (r, st')"
        by simp
show ?thesis
proof (rule resolve_load_cases[where T=T and ld=ld, OF tr tc ld run])
  fix e assume "r = Inl e" "T st st'"
  then show ?thesis by simp
next
  fix q r1 sa sb
  assume ok: "resolver w s filePath = Inr (Some q)" "T st sa"
    "ld sa q = Some (Inr r1, sb)" "T sa sb"
    "load_atValues ld w filePath rest
               (fst acc @ q # dependencies r1, snd acc @ import_tokens imps' (tokens r1)) sb = Some (r, st')"
        from Cons.IH[OF ok(5)] have t2: "T sb st'"
          and post: "\<forall>acc'. r = Inr acc' \<longrightarrow> loop_post T ld w filePath (value_specs rest)
                   (fst acc @ q # dependencies r1) sb st' (fst acc')"
          by simp_all
        have "T st st'" using tr[OF tr[OF ok(2) ok(4)] t2] .
        moreover have "loop_post T ld w filePath (value_specs (v # rest)) (fst acc) st st' (fst acc')"
          if "r = Inr acc'" for acc'
          unfolding sp
        proof (rule loop_post_step[where sa=sa and sb=sb and q=q and r=r1])
          show "\<And>a b c. T a b \<Longrightarrow> T b c \<Longrightarrow> T a c" by (rule tr)
          show "\<And>a. T a a" by (rule rf)
          show "loop_post T ld w filePath (value_specs rest) (fst acc @ q # dependencies r1)
                  sb st' (fst acc')" using post that by blast
        qed (fact ok t2)+
        ultimately show ?thesis by blast
      qed
    qed
  qed
qed

lemma loop_post_mono:
  assumes tr: "\<And>a b c. T a b \<Longrightarrow> T b c \<Longrightarrow> T a c"
    and post: "loop_post T ld w filePath specs deps s1 s2 deps'"
    and t01: "T s0 s1" and t23: "T s2 s3"
  shows "loop_post T ld w filePath specs deps s0 s3 deps'"
proof -
  have lift: "loaded_via T ld w filePath s0 s3 s q r"
    if "loaded_via T ld w filePath s1 s2 s q r" for s q r
    using loaded_via_mono[where T=T and ld=ld, OF tr that t01 t23] .
  show ?thesis using post lift unfolding loop_post_def by meson
qed

lemma loop_post_append:
  assumes tr: "\<And>a b c. T a b \<Longrightarrow> T b c \<Longrightarrow> T a c"
    and rf: "\<And>a. T a a"
    and p1: "loop_post T ld w filePath specs1 deps0 s1 s2 deps1"
    and p2: "loop_post T ld w filePath specs2 deps1 s2 s3 deps2"
    and t12: "T s1 s2" and t23: "T s2 s3"
  shows "loop_post T ld w filePath (specs1 @ specs2) deps0 s1 s3 deps2"
proof -
  have q1: "loop_post T ld w filePath specs1 deps0 s1 s3 deps1"
    using loop_post_mono[where T=T and ld=ld, OF tr p1 rf t23] .
  have q2: "loop_post T ld w filePath specs2 deps1 s1 s3 deps2"
    using loop_post_mono[where T=T and ld=ld, OF tr p2 t12 rf] .
  have b: "\<forall>s\<in>set (specs1 @ specs2). \<exists>q r. loaded_via T ld w filePath s1 s3 s q r"
    using q1 q2 unfolding loop_post_def by auto
  have c: "d \<in> set deps0 \<or>
        (\<exists>s\<in>set (specs1 @ specs2). \<exists>q r. loaded_via T ld w filePath s1 s3 s q r \<and>
           (d = q \<or> d \<in> set (dependencies r)))" if d: "d \<in> set deps2" for d
  proof -
    from q2 d consider "d \<in> set deps1"
      | s q r where "s \<in> set specs2" "loaded_via T ld w filePath s1 s3 s q r"
          "d = q \<or> d \<in> set (dependencies r)"
      unfolding loop_post_def by blast
    then show ?thesis
    proof cases
      case 1
      with q1 consider "d \<in> set deps0"
        | s q r where "s \<in> set specs1" "loaded_via T ld w filePath s1 s3 s q r"
            "d = q \<or> d \<in> set (dependencies r)"
        unfolding loop_post_def by blast
      then show ?thesis
      proof cases
        case 1 then show ?thesis by simp
      next
        case 2
        have "s \<in> set (specs1 @ specs2)" using 2(1) by simp
        with 2(2,3) show ?thesis by blast
      qed
    next
      case 2
      have "s \<in> set (specs1 @ specs2)" using 2(1) by simp
      with 2(2,3) show ?thesis by blast
    qed
  qed
  show ?thesis unfolding loop_post_def using b c by blast
qed

lemma do_stat_simps [simp]:
  "fst (do_stat w p st) = stat w p"
  "snd (do_stat w p st) = st\<lparr>trace := trace st @ [Stat p]\<rparr>"
  by (simp_all add: do_stat_def)

lemma readCSS_state: "snd (readCSS w filePath st) = st\<lparr>trace := trace st @ [ReadFile filePath]\<rparr>"
  by (simp add: readCSS_def Let_def split: sum.splits option.splits)

lemma readCSS_value: "fst (readCSS w filePath st) = fst (readCSS w filePath init_locator)"
  by (simp add: readCSS_def Let_def split: sum.splits option.splits)

lemma dependencies_outdated_False:
  "dependencies_outdated w ds st = (Inr False, st') \<longleftrightarrow>
     (\<forall>d\<in>set ds. fresh w (cache st) d) \<and> st' = st\<lparr>trace := trace st @ map Stat ds\<rparr>"
proof (induction ds arbitrary: st)
  case Nil
  show ?case by auto
next
  case (Cons d ds)
  show ?case
  proof (cases "cache st d")
    case None
    then show ?thesis by (simp add: fresh_def)
  next
    case (Some entry)
    show ?thesis
    proof (cases "stat w d")
      case (Inl e)
      with Some show ?thesis by (simp add: fresh_def do_stat_def)
    next
      case (Inr mt)
      show ?thesis
      proof (cases "mtime entry = mt")
        case False
        with Some Inr show ?thesis by (auto simp: fresh_def do_stat_def)
      next
        case True
        with Some Inr show ?thesis
          using Cons.IH[of "st\<lparr>trace := trace st @ [Stat d]\<rparr>"]
          by (simp add: fresh_def do_stat_def)
      qed
    qed
  qed
qed

lemma dependencies_outdated_trace:
  "\<exists>x. snd (dependencies_outdated w ds st) = st\<lparr>trace := x\<rparr>"
proof (induction ds arbitrary: st)
  case Nil
  show ?case by (rule exI[of _ "trace st"]) simp
next
  case (Cons d ds)
  have same: "\<exists>x. st = st\<lparr>trace := x\<rparr>" by (rule exI[of _ "trace st"]) simp
  obtain x where x: "snd (dependencies_outdated w ds (st\<lparr>trace := trace st @ [Stat d]\<rparr>)) =
      st\<lparr>trace := trace st @ [Stat d], trace := x\<rparr>"
    using Cons.IH[of "st\<lparr>trace := trace st @ [Stat d]\<rparr>"] by blast
  show ?case using same x
    by (auto simp: do_stat_def split: option.splits sum.splits)
qed

lemma isCacheOutdated_trace: "\<exists>x. snd (isCacheOutdated w filePath st) = st\<lparr>trace := x\<rparr>"
proof (cases "cache st filePath")
  case None
  then show ?thesis by (intro exI[of _ "trace st"]) (simp add: isCacheOutdated_def)
next
  case (Some entry)
  let ?s1 = "st\<lparr>trace := trace st @ [Stat filePath]\<rparr>"
  obtain x where x: "snd (dependencies_outdated w (dependencies (result entry)) ?s1) =
      ?s1\<lparr>trace := x\<rparr>"
    using dependencies_outdated_trace[of w "dependencies (result entry)" ?s1] by blast
  show ?thesis
  proof (cases "stat w filePath")
    case (Inl e)
    with Some show ?thesis by (auto simp: isCacheOutdated_def do_stat_def)
  next
    case (Inr mt)
    show ?thesis
    proof (cases "mtime entry = mt")
      case True
      with Some Inr x show ?thesis by (auto simp: isCacheOutdated_def do_stat_def)
    next
      case False
      with Some Inr show ?thesis by (auto simp: isCacheOutdated_def do_stat_def)
    qed
  qed
qed

lemma isCacheOutdated_False:
  "isCacheOutdated w filePath st = (Inr False, st') \<longleftrightarrow>
     (\<exists>entry. cache st filePath = Some entry \<and> stat w filePath = Inr (mtime entry) \<and>
        (\<forall>d\<in>set (dependencies (result entry)). fresh w (cache st) d) \<and>
        st' = st\<lparr>trace := trace st @ map Stat (filePath # dependencies (result entry))\<rparr>)"
  by (auto simp: isCacheOutdated_def do_stat_def dependencies_outdated_False
      split: option.splits sum.splits)

lemma sheet_of_eq:
  assumes "fst (readCSS w filePath st) = Inr (css, smap, deps)"
    and "parse w css filePath (prev_map smap) = Inr ast"
  shows "sheet_of w filePath = Inr (deps, ast)"
  using assms readCSS_value[of w filePath st] by (simp add: sheet_of_def)

lemma gather_rel:
  assumes tr: "\<And>a b c. T a b \<Longrightarrow> T b c \<Longrightarrow> T a c"
    and rf: "\<And>a. T a a"
    and tc: "\<And>a x. T a (a\<lparr>trace := x\<rparr>)"
    and ld: "\<And>a p r b. ld a p = Some (r, b) \<Longrightarrow> T a b"
    and run: "gather ld w filePath st = Some (r, st')"
  shows "T st st' \<and>
    (\<forall>mt deps toks. r = Inr (mt, deps, toks) \<longrightarrow>
       stat w filePath = Inr mt \<and>
       (\<exists>deps0 ast. sheet_of w filePath = Inr (deps0, ast) \<and>
          loop_post T ld w filePath (sheet_specs ast) deps0 st st' deps))"
proof -
  let ?s1 = "st\<lparr>trace := trace st @ [Stat filePath]\<rparr>"
  let ?s2 = "?s1\<lparr>trace := trace ?s1 @ [ReadFile filePath]\<rparr>"
  have t01: "T st ?s1" by (rule tc)
  have t12: "T ?s1 ?s2" by (rule tc)
  have t02: "T st ?s2" using tr[OF t01 t12] .
  show ?thesis
  proof (cases "stat w filePath")
    case (Inl e)
    with run have "r = Inl e" "st' = ?s1" by (auto simp: gather_def do_stat_def)
    with t01 show ?thesis by simp
  next
    case (Inr mt)
    obtain x where x: "readCSS w filePath ?s1 = (x, ?s2)"
      using readCSS_state[of w filePath ?s1] by (cases "readCSS w filePath ?s1") auto
    show ?thesis
    proof (cases x)
      case (Inl e)
      with run Inr x have "r = Inl e" "st' = ?s2" by (auto simp: gather_def do_stat_def)
      with t02 show ?thesis by simp
    next
      case rd: (Inr triple)
      obtain css smap deps0 where triple: "triple = (css, smap, deps0)" by (cases triple)
      show ?thesis
      proof (cases "parse w css filePath (prev_map smap)")
        case (Inl e)
        with run Inr x rd triple have "r = Inl e" "st' = ?s2"
          by (auto simp: gather_def do_stat_def)
        with t02 show ?thesis by simp
      next
        case ps: (Inr ast)
        have sh: "sheet_of w filePath = Inr (deps0, ast)"
          using sheet_of_eq[of w filePath ?s1 css smap deps0 ast] x rd triple ps by simp
        from run Inr x rd triple ps have run2:
          "bind_outcome (load_atImports ld w filePath (atImports ast) (deps0, []) ?s2) (\<lambda>acc1 st4.
           bind_outcome (load_atValues ld w filePath (atValues ast)
                     (fst acc1, snd acc1 @ class_tokens ast) st4) (\<lambda>acc2 st5.
             Some (Inr (mt, fst acc2, snd acc2), st5))) = Some (r, st')"
          by (simp add: gather_def do_stat_def)
        from run2 show ?thesis
        proof (cases rule: bind_outcome_SomeE)
          case (err e)
          from load_atImports_rel[where T=T and ld=ld, OF tr rf tc ld err(1)]
          have "T ?s2 st'" by simp
          with tr[OF t02] err(2) show ?thesis by simp
        next
          case (ok acc1 st4)
          from load_atImports_rel[where T=T and ld=ld, OF tr rf tc ld ok(1)]
          have t24: "T ?s2 st4"
            and p1: "loop_post T ld w filePath (import_specs (atImports ast)) deps0 ?s2 st4 (fst acc1)"
            by simp_all
          from ok(2) show ?thesis
          proof (cases rule: bind_outcome_SomeE)
            case (err e)
            from load_atValues_rel[where T=T and ld=ld, OF tr rf tc ld err(1)]
            have "T st4 st'" by simp
            with tr[OF tr[OF t02 t24]] err(2) show ?thesis by simp
          next
            case (ok acc2 st5)
            from load_atValues_rel[where T=T and ld=ld, OF tr rf tc ld ok(1)]
            have t45: "T st4 st5"
              and p2: "loop_post T ld w filePath (value_specs (atValues ast)) (fst acc1) st4 st5 (fst acc2)"
              by simp_all
            from ok(2) have r: "r = Inr (mt, fst acc2, snd acc2)" and st': "st' = st5" by simp_all
            have "loop_post T ld w filePath (sheet_specs ast) deps0 ?s2 st5 (fst acc2)"
              unfolding sheet_specs_def
              using loop_post_append[where T=T and ld=ld, OF tr rf p1 p2 t24 t45] .
            from loop_post_mono[where T=T and ld=ld, OF tr this t02 rf]
            have "loop_post T ld w filePath (sheet_specs ast) deps0 st st5 (fst acc2)" .
            moreover have "T st st5" using tr[OF tr[OF t02 t24] t45] .
            ultimately show ?thesis using r st' sh Inr by auto
          qed
        qed
      qed
    qed
  qed
qed

lemma load_body_cases:
  assumes "load_body ld w st filePath = Some (r, st')"
  obtains (check_failed) e where "isCacheOutdated w filePath st = (Inl e, st')" "r = Inl e"
  | (cached) entry where "isCacheOutdated w filePath st = (Inr False, st')"
      "cache st filePath = Some entry" "r = Inr (result entry)"
  | (gather_failed) sa e where "isCacheOutdated w filePath st = (Inr True, sa)"
      "gather ld w filePath sa = Some (Inl e, st')" "r = Inl e"
  | (rebuilt) sa sb mt deps toks where "isCacheOutdated w filePath st = (Inr True, sa)"
      "gather ld w filePath sa = Some (Inr (mt, deps, toks), sb)"
      "r = Inr (finalize filePath deps toks)"
      "st' = sb\<lparr>cache := (cache sb)(filePath \<mapsto>
               \<lparr>mtime = mt, result = finalize filePath deps toks\<rparr>)\<rparr>"
proof -
  obtain x sa where chk: "isCacheOutdated w filePath st = (x, sa)"
    by (cases "isCacheOutdated w filePath st")
  show thesis
  proof (cases x)
    case (Inl e)
    with assms chk check_failed show thesis by (simp add: load_body_def)
  next
    case (Inr outdated)
    show thesis
    proof (cases outdated)
      case False
      with chk Inr obtain entry where e: "cache st filePath = Some entry"
        and sa: "sa = st\<lparr>trace := trace st @ map Stat (filePath # dependencies (result entry))\<rparr>"
        using isCacheOutdated_False[of w filePath st sa] by auto
      from sa e have "cache sa filePath = Some entry" by simp
      with assms chk Inr False e cached show thesis by (simp add: load_body_def)
    next
      case True
      from assms chk Inr True have run:
        "bind_outcome (gather ld w filePath sa) (\<lambda>(mt, deps, toks) st2.
           let r = finalize filePath deps toks in
           Some (Inr r, st2\<lparr>cache := (cache st2)(filePath \<mapsto> \<lparr>mtime = mt, result = r\<rparr>)\<rparr>))
         = Some (r, st')"
        by (simp add: load_body_def)
      from run show thesis
      proof (cases rule: bind_outcome_SomeE)
        case (err e)
        with chk Inr True gather_failed show thesis by simp
      next
        case (ok g sb)
        obtain mt deps toks where g: "g = (mt, deps, toks)" by (cases g)
        with ok chk Inr True rebuilt show thesis by (simp add: Let_def)
      qed
    qed
  qed
qed

lemma import_tokens_Cons:
  "import_tokens imps (src # toks) =
     (case find (\<lambda>i. importedTokenName i = name src) imps of
        None \<Rightarrow> import_tokens imps toks
      | Some i \<Rightarrow> aliased i src # import_tokens imps toks)"
  by (simp add: aliased_def split: option.splits)

lemma import_tokens_origin:
  "t \<in> set (import_tokens imps toks) \<Longrightarrow>
     \<exists>src\<in>set toks. \<exists>i\<in>set imps. importedTokenName i = name src \<and> t = aliased i src"
proof (induction toks)
  case Nil
  then show ?case by simp
next
  case (Cons src toks)
  show ?case
  proof (cases "find (\<lambda>i. importedTokenName i = name src) imps")
    case None
    with Cons.prems have "t \<in> set (import_tokens imps toks)"
      by (simp only: import_tokens_Cons option.simps)
    from Cons.IH[OF this] show ?thesis by auto
  next
    case (Some i)
    then have i: "i \<in> set imps" "importedTokenName i = name src"
      by (auto simp: find_Some_iff)
    from Cons.prems Some have "t = aliased i src \<or> t \<in> set (import_tokens imps toks)"
      by (simp only: import_tokens_Cons option.simps set_simps insert_iff)
    then show ?thesis
    proof
      assume "t = aliased i src"
      with i show ?thesis by auto
    next
      assume "t \<in> set (import_tokens imps toks)"
      from Cons.IH[OF this] show ?thesis by auto
    qed
  qed
qed

lemma find_unmatched:
  assumes "\<not> P i"
  shows "find P (pre @ i # post) = find P (pre @ post)"
  using assms by (induction pre) auto

lemma find_shadowed:
  assumes "P i \<longleftrightarrow> P j"
  shows "find P (pre @ i # mid @ j # post) = find P (pre @ i # mid @ post)"
proof (induction pre)
  case Nil
  show ?case
  proof (cases "P i")
    case True then show ?thesis by simp
  next
    case False
    with assms have "\<not> P j" by simp
    from find_unmatched[of P j mid post, OF this] False show ?thesis by simp
  qed
next
  case (Cons a pre)
  then show ?case by simp
qed

lemma import_tokens_cong:
  assumes "\<And>src. src \<in> set toks \<Longrightarrow>
     find (\<lambda>i. importedTokenName i = name src) imps1 =
     find (\<lambda>i. importedTokenName i = name src) imps2"
  shows "import_tokens imps1 toks = import_tokens imps2 toks"
  using assms
proof (induction toks)
  case Nil
  show ?case by simp
next
  case (Cons a toks)
  have "import_tokens imps1 toks = import_tokens imps2 toks"
    by (rule Cons.IH) (simp add: Cons.prems)
  moreover have "find (\<lambda>i. importedTokenName i = name a) imps1 =
     find (\<lambda>i. importedTokenName i = name a) imps2"
    by (rule Cons.prems) simp
  ultimately show ?case by (simp only: import_tokens_Cons)
qed

lemma import_tokens_unmatched:
  assumes "importedTokenName i \<notin> name ` set toks"
  shows "import_tokens (pre @ i # post) toks = import_tokens (pre @ post) toks"
proof (rule import_tokens_cong)
  fix src assume "src \<in> set toks"
  with assms have "\<not> importedTokenName i = name src" by auto
  then show "find (\<lambda>i. importedTokenName i = name src) (pre @ i # post) =
     find (\<lambda>i. importedTokenName i = name src) (pre @ post)"
    by (rule find_unmatched)
qed

lemma import_tokens_shadowed:
  assumes "importedTokenName j = importedTokenName i"
  shows "import_tokens (pre @ i # mid @ j # post) toks = import_tokens (pre @ i # mid @ post) toks"
proof (rule import_tokens_cong)
  fix src
  show "find (\<lambda>i. importedTokenName i = name src) (pre @ i # mid @ j # post) =
     find (\<lambda>i. importedTokenName i = name src) (pre @ i # mid @ post)"
    by (rule find_shadowed) (simp add: assms)
qed

lemma find_first:
  assumes "\<forall>e\<in>set pre. \<not> P e" "P i"
  shows "find P (pre @ i # rest) = Some i"
  using assms by (induction pre) auto

lemma value_import_step:
  assumes "\<not> isIgnoredSpecifier s" "resolver w s filePath = Inr (Some q)"
  shows "load_atValues ld w filePath (ValueImportDeclaration s imps # rest) acc st =
     bind_outcome (ld (st\<lparr>trace := trace st @ [Resolve s filePath]\<rparr>) q) (\<lambda>r sb.
       load_atValues ld w filePath rest
         (fst acc @ q # dependencies r, snd acc @ import_tokens imps (tokens r)) sb)"
  using assms by (simp add: strict_resolver_def)

lemma load'_rel:
  assumes tr: "\<And>a b c. T a b \<Longrightarrow> T b c \<Longrightarrow> T a c"
    and rf: "\<And>a. T a a"
    and tc: "\<And>a x. T a (a\<lparr>trace := x\<rparr>)"
    and store: "\<And>a p mt deps toks. stat w p = Inr mt \<Longrightarrow>
       T a (a\<lparr>cache := (cache a)(p \<mapsto> \<lparr>mtime = mt, result = finalize p deps toks\<rparr>)\<rparr>)"
  shows "load' n w st filePath = Some (r, st') \<Longrightarrow> T st st'"
proof (induction n arbitrary: st filePath r st')
  case 0
  then show ?case by simp
next
  case (Suc n)
  have ld: "\<And>a p r b. load' n w a p = Some (r, b) \<Longrightarrow> T a b" by (rule Suc.IH)
  obtain x where chk: "snd (isCacheOutdated w filePath st) = st\<lparr>trace := x\<rparr>"
    using isCacheOutdated_trace by blast
  from Suc.prems have "load_body (load' n w) w st filePath = Some (r, st')" by simp
  then show ?case
  proof (cases rule: load_body_cases)
    case (check_failed e)
    with chk have "st' = st\<lparr>trace := x\<rparr>" by simp
    then show ?thesis by (simp add: tc)
  next
    case (cached entry)
    with chk have "st' = st\<lparr>trace := x\<rparr>" by simp
    then show ?thesis by (simp add: tc)
  next
    case (gather_failed sa e)
    with chk have "sa = st\<lparr>trace := x\<rparr>" by simp
    then have "T st sa" by (simp add: tc)
    moreover have "T sa st'"
      using gather_rel[where T=T and ld="load' n w", OF tr rf tc ld gather_failed(2)] by simp
    ultimately show ?thesis by (rule tr)
  next
    case (rebuilt sa sb mt deps toks)
    with chk have "sa = st\<lparr>trace := x\<rparr>" by simp
    then have t1: "T st sa" by (simp add: tc)
    have g: "T sa sb" "stat w filePath = Inr mt"
      using gather_rel[where T=T and ld="load' n w", OF tr rf tc ld rebuilt(2)] by simp_all
    have "T sb st'" unfolding rebuilt(4) using g(2) by (rule store)
    with tr[OF t1 g(1)] show ?thesis by (rule tr)
  qed
qed


lemma dependencies_outdated_cong:
  "stat w1 = stat w2 \<Longrightarrow> dependencies_outdated w1 ds st = dependencies_outdated w2 ds st"
  by (induction ds arbitrary: st) (auto simp: do_stat_def split: option.splits sum.splits)

lemma isCacheOutdated_cong:
  "stat w1 = stat w2 \<Longrightarrow> isCacheOutdated w1 p st = isCacheOutdated w2 p st"
  by (auto simp: isCacheOutdated_def do_stat_def dependencies_outdated_cong[of w1 w2]
      split: option.splits sum.splits)

lemma strict_resolver_cong:
  "resolver w1 = resolver w2 \<Longrightarrow> strict_resolver w1 s p st = strict_resolver w2 s p st"
  by (simp add: strict_resolver_def)

lemma load_atImports_cong:
  assumes "resolver w1 = resolver w2" "ld1 = ld2"
  shows "load_atImports ld1 w1 p imps acc st = load_atImports ld2 w2 p imps acc st"
  using assms
  by (induction imps arbitrary: acc st)
    (auto simp: strict_resolver_cong[of w1 w2] split: option.splits
      intro!: arg_cong2[where f=bind_outcome] ext)

lemma load_atValues_cong:
  assumes "resolver w1 = resolver w2" "ld1 = ld2"
  shows "load_atValues ld1 w1 p vs acc st = load_atValues ld2 w2 p vs acc st"
  using assms
proof (induction vs arbitrary: acc st)
  case Nil
  show ?case by simp
next
  case (Cons v vs)
  then show ?case
    by (cases v) (auto simp: strict_resolver_cong[of w1 w2]
      intro!: arg_cong2[where f=bind_outcome] ext)
qed

lemma gather_cong:
  assumes "stat w1 = stat w2" "resolver w1 = resolver w2" "parse w1 = parse w2"
    and "\<And>s. readCSS w1 p s = readCSS w2 p s" and "ld1 = ld2"
  shows "gather ld1 w1 p st = gather ld2 w2 p st"
  unfolding gather_def do_stat_def
  using assms(1,3,4,5) load_atImports_cong[OF assms(2,5)] load_atValues_cong[OF assms(2,5)]
  by simp

lemma load'_world_cong:
  assumes "stat w1 = stat w2" "resolver w1 = resolver w2" "parse w1 = parse w2"
    and "\<And>p s. readCSS w1 p s = readCSS w2 p s"
  shows "load' n w1 st filePath = load' n w2 st filePath"
proof (induction n arbitrary: st filePath)
  case 0
  show ?case by simp
next
  case (Suc n)
  have ld: "load' n w1 = load' n w2" by (intro ext) (rule Suc.IH)
  have g: "gather (load' n w1) w1 filePath s = gather (load' n w2) w2 filePath s" for s
    by (rule gather_cong) (fact assms ld)+
  show ?case
    unfolding load'.simps load_body_def isCacheOutdated_cong[OF assms(1)] g ..
qed

lemma load_world_cong:
  assumes "stat w1 = stat w2" "resolver w1 = resolver w2" "parse w1 = parse w2"
    and "\<And>p s. readCSS w1 p s = readCSS w2 p s"
  shows "load n w1 st filePath = load n w2 st filePath"
  by (simp add: load_def load'_world_cong[OF assms])

lemma readCSS_not_handled:
  assumes "transformer w = Some t" "readFile w filePath = Inr source" "t source filePath = Inr None"
  shows "readCSS w filePath st = (Inr (source, None, []), st\<lparr>trace := trace st @ [ReadFile filePath]\<rparr>)"
  using assms by (simp add: readCSS_def Let_def)

lemma readCSS_unconfigured:
  "readCSS (w\<lparr>transformer := None\<rparr>) filePath st =
     (case readFile w filePath of
        Inl e \<Rightarrow> (Inl e, st\<lparr>trace := trace st @ [ReadFile filePath]\<rparr>)
      | Inr source \<Rightarrow> (Inr (source, None, []), st\<lparr>trace := trace st @ [ReadFile filePath]\<rparr>))"
  by (simp add: readCSS_def Let_def split: sum.splits)

lemma uniqueBy_from_filter:
  "uniqueBy_from keys fn arr = filter (\<lambda>y. fn y \<notin> set keys) (uniqueBy_from [] fn arr)"
proof (induction arr arbitrary: keys)
  case Nil
  show ?case by simp
next
  case (Cons x xs)
  have a: "uniqueBy_from (fn x # keys) fn xs =
      filter (\<lambda>y. fn y \<notin> set (fn x # keys)) (uniqueBy_from [] fn xs)"
    by (rule Cons.IH)
  have b: "uniqueBy_from [fn x] fn xs = filter (\<lambda>y. fn y \<notin> set [fn x]) (uniqueBy_from [] fn xs)"
    by (rule Cons.IH)
  have c: "uniqueBy_from keys fn xs = filter (\<lambda>y. fn y \<notin> set keys) (uniqueBy_from [] fn xs)"
    by (rule Cons.IH)
  show ?case
  proof (cases "fn x \<in> set keys")
    case True
    have "filter (\<lambda>y. fn y \<notin> set keys) (filter (\<lambda>y. fn y \<notin> set [fn x]) (uniqueBy_from [] fn xs))
        = filter (\<lambda>y. fn y \<notin> set keys) (uniqueBy_from [] fn xs)"
      using True by (auto intro: filter_cong)
    with True b c show ?thesis by simp
  next
    case False
    have "filter (\<lambda>y. fn y \<notin> set keys) (filter (\<lambda>y. fn y \<notin> set [fn x]) (uniqueBy_from [] fn xs))
        = filter (\<lambda>y. fn y \<notin> set (fn x # keys)) (uniqueBy_from [] fn xs)"
      by (auto intro: filter_cong)
    with False a b show ?thesis by simp
  qed
qed

lemma uniqueBy_Cons:
  "uniqueBy (x # xs) fn = x # filter (\<lambda>y. fn y \<noteq> fn x) (uniqueBy xs fn)"
  using uniqueBy_from_filter[of "[fn x]" fn xs] by (simp add: uniqueBy_def)

lemma uniqueBy_Nil [simp]: "uniqueBy [] fn = []"
  by (simp add: uniqueBy_def)

lemma image_uniqueBy: "fn ` set (uniqueBy xs fn) = fn ` set xs"
proof (induction xs)
  case Nil
  show ?case by simp
next
  case (Cons x xs)
  have "fn ` set (filter (\<lambda>y. fn y \<noteq> fn x) (uniqueBy xs fn)) = fn ` set (uniqueBy xs fn) - {fn x}"
    by auto
  with Cons show ?case by (auto simp: uniqueBy_Cons)
qed

lemma distinct_map_uniqueBy: "distinct (map fn (uniqueBy xs fn))"
proof (induction xs)
  case Nil
  show ?case by simp
next
  case (Cons x xs)
  have "distinct (map fn (filter (\<lambda>y. fn y \<noteq> fn x) (uniqueBy xs fn)))"
    using Cons by (rule distinct_map_filter)
  then show ?case by (auto simp: uniqueBy_Cons)
qed

lemma distinct_uniqueBy: "distinct (uniqueBy xs fn)"
  using distinct_map_uniqueBy[of fn xs] by (simp add: distinct_map)

lemma set_unique [simp]: "set (unique xs) = set xs"
  using image_uniqueBy[of "\<lambda>el. el" xs] by (simp add: unique_def)

lemma distinct_unique [simp]: "distinct (unique xs)"
  by (simp add: unique_def distinct_uniqueBy)

lemma unique_Cons: "unique (x # xs) = x # filter (\<lambda>y. y \<noteq> x) (unique xs)"
  by (simp add: unique_def uniqueBy_Cons)

lemma first_index_Cons:
  "first_index (x # xs) y = (if y = x then 0 else Suc (first_index xs y))"
  by (simp add: first_index_def)

lemma unique_first_order:
  "sorted_wrt (\<lambda>a b. first_index xs a < first_index xs b) (unique xs)"
proof (induction xs)
  case Nil
  show ?case by (simp add: unique_def)
next
  case (Cons x xs)
  let ?R = "\<lambda>a b. first_index (x # xs) a < first_index (x # xs) b"
  have "sorted_wrt (\<lambda>a b. first_index xs a < first_index xs b) (filter (\<lambda>y. y \<noteq> x) (unique xs))"
    using Cons by (rule sorted_wrt_filter)
  then have "sorted_wrt ?R (filter (\<lambda>y. y \<noteq> x) (unique xs))"
    by (rule sorted_wrt_mono_rel[rotated]) (simp add: first_index_Cons)
  moreover have "\<forall>b\<in>set (filter (\<lambda>y. y \<noteq> x) (unique xs)). ?R x b"
    by (simp add: first_index_Cons)
  ultimately show ?case by (simp add: unique_Cons)
qed

lemma stringify_location_inj:
  assumes "stringify_location la = stringify_location lb"
  shows "la = lb"
  by (rule Location.equality) (use assms in \<open>simp_all add: stringify_location_def\<close>)

lemma inj_stringify: "inj stringify"
proof (rule injI)
  fix a b :: Token
  assume eq: "stringify a = stringify b"
  have "name a = name b \<and> importedName a = importedName b \<and>
      stringify_location (originalLocation a) = stringify_location (originalLocation b)"
  proof (cases "importedName a")
    case None
    with eq show ?thesis by (cases "importedName b") (simp_all add: stringify_def)
  next
    case (Some x)
    with eq show ?thesis by (cases "importedName b") (simp_all add: stringify_def)
  qed
  then have "name a = name b" "importedName a = importedName b"
    "originalLocation a = originalLocation b"
    using stringify_location_inj by blast+
  then show "a = b" by (intro Token.equality) simp_all
qed

lemma set_uniqueBy_stringify: "set (uniqueBy toks stringify) = set toks"
  using image_uniqueBy[of stringify toks] inj_stringify by (simp add: inj_image_eq_iff)

lemma finalize_result_ok: "result_ok p (finalize p deps toks)"
  by (simp add: result_ok_def finalize_def distinct_uniqueBy)

lemma finalize_order:
  "set (dependencies (finalize p deps toks)) = set deps - {p} \<and>
   sorted_wrt (\<lambda>a b. first_index deps a < first_index deps b) (dependencies (finalize p deps toks))"
  by (auto simp: finalize_def intro: sorted_wrt_filter unique_first_order)

lemma cache_ok_store:
  assumes "cache_ok c"
  shows "cache_ok (c(p \<mapsto> \<lparr>mtime = mt, result = finalize p deps toks\<rparr>))"
  unfolding cache_ok_def
proof (intro allI impI)
  fix q entry
  assume e: "(c(p \<mapsto> \<lparr>mtime = mt, result = finalize p deps toks\<rparr>)) q = Some entry"
  show "result_ok q (result entry)"
  proof (cases "q = p")
    case True
    with e have "result entry = finalize p deps toks" by auto
    with True show ?thesis by (simp add: finalize_result_ok)
  next
    case False
    with e have "c q = Some entry" by simp
    with assms show ?thesis unfolding cache_ok_def by blast
  qed
qed

lemma load'_cache_ok:
  assumes "load' n w st filePath = Some (r, st')" "cache_ok (cache st)"
  shows "cache_ok (cache st')"
proof -
  have "cache_ok (cache st) \<longrightarrow> cache_ok (cache st')"
  proof (rule load'_rel[where T="\<lambda>a b. cache_ok (cache a) \<longrightarrow> cache_ok (cache b)"
        and w=w and n=n and filePath=filePath and r=r])
    show "load' n w st filePath = Some (r, st')" by fact
  next
    fix a p mt deps toks
    show "cache_ok (cache a) \<longrightarrow>
        cache_ok (cache (a\<lparr>cache := (cache a)(p \<mapsto> \<lparr>mtime = mt, result = finalize p deps toks\<rparr>)\<rparr>))"
      using cache_ok_store[of "cache a" p mt deps toks] by simp
  qed simp_all
  with assms(2) show ?thesis by simp
qed

lemma load'_result_ok:
  assumes "cache_ok (cache st)" "load' n w st filePath = Some (Inr res, st')"
  shows "result_ok filePath res"
proof (cases n)
  case 0
  with assms show ?thesis by simp
next
  case (Suc m)
  with assms have "load_body (load' m w) w st filePath = Some (Inr res, st')" by simp
  then show ?thesis
  proof (cases rule: load_body_cases)
    case (cached entry)
    with assms(1) show ?thesis by (simp add: cache_ok_def)
  next
    case (rebuilt sa sb mt deps toks)
    then show ?thesis by (simp add: finalize_result_ok)
  qed simp_all
qed

lemma load_cases:
  assumes "load n w st filePath = Some (r, st')"
  obtains (busy) "loading st" "r = Inl ConcurrentLoad" "st' = st"
  | (run) sb where "\<not> loading st" "load' n w (st\<lparr>loading := True\<rparr>) filePath = Some (r, sb)"
      "st' = sb\<lparr>loading := False\<rparr>"
  using assms by (auto simp: load_def split: if_splits option.splits)

lemma reachable_cache_ok: "reachable st \<Longrightarrow> cache_ok (cache st)"
proof (induction rule: reachable.induct)
  case init
  show ?case by (simp add: init_locator_def cache_ok_def)
next
  case (step st n w filePath r st')
  from step.hyps(2) show ?case
  proof (cases rule: load_cases)
    case busy
    with step.IH show ?thesis by simp
  next
    case (run sb)
    from load'_cache_ok[OF run(2)] step.IH run(3) show ?thesis by simp
  qed
qed

lemma startsWith_iff: "startsWith s p \<longleftrightarrow> (\<exists>rest. s = p @ rest)"
proof
  assume "startsWith s p"
  then have "s = p @ drop (length p) s"
    unfolding startsWith_def by (metis append_take_drop_id)
  then show "\<exists>rest. s = p @ rest" ..
next
  assume "\<exists>rest. s = p @ rest"
  then show "startsWith s p" by (auto simp: startsWith_def)
qed

lemma load_atImports_skip_fun:
  assumes "isIgnoredSpecifier s"
  shows "load_atImports ld w p (pre @ Some s # post) = load_atImports ld w p (pre @ post)"
proof (induction pre)
  case Nil
  show ?case using assms by (intro ext) simp
next
  case (Cons a pre)
  show ?case
    by (intro ext, cases a) (simp_all add: Cons.IH)
qed

lemma load_atImports_skip:
  assumes "isIgnoredSpecifier s"
  shows "load_atImports ld w p (pre @ Some s # post) acc st = load_atImports ld w p (pre @ post) acc st"
  by (simp add: load_atImports_skip_fun[OF assms])

lemma load_atValues_skip_fun:
  assumes "isIgnoredSpecifier s"
  shows "load_atValues ld w p (pre @ ValueImportDeclaration s imps # post) =
         load_atValues ld w p (pre @ post)"
proof (induction pre)
  case Nil
  show ?case using assms by (intro ext) simp
next
  case (Cons a pre)
  show ?case
    by (intro ext, cases a) (simp_all add: Cons.IH)
qed

lemma load_atValues_skip:
  assumes "isIgnoredSpecifier s"
  shows "load_atValues ld w p (pre @ ValueImportDeclaration s imps # post) acc st =
         load_atValues ld w p (pre @ post) acc st"
  by (simp add: load_atValues_skip_fun[OF assms])

lemma sheet_of_deps_clean:
  assumes "sheet_of w p = Inr (deps0, ast)"
  shows "\<forall>d\<in>set deps0. \<not> isIgnoredSpecifier d"
  using assms
  by (auto simp: sheet_of_def readCSS_def Let_def split: sum.splits option.splits prod.splits)

lemma deps_clean_store:
  assumes "deps_clean c" "no_remote r"
  shows "deps_clean (c(p \<mapsto> \<lparr>mtime = mt, result = r\<rparr>))"
  unfolding deps_clean_def
proof (intro allI impI)
  fix q entry
  assume e: "(c(p \<mapsto> \<lparr>mtime = mt, result = r\<rparr>)) q = Some entry"
  show "no_remote (result entry)"
  proof (cases "q = p")
    case True
    with e have "result entry = r" by auto
    with assms(2) show ?thesis by simp
  next
    case False
    with e have "c q = Some entry" by simp
    with assms(1) show ?thesis unfolding deps_clean_def by blast
  qed
qed

lemma gather_rel_obj:
  assumes "\<forall>a b c. T a b \<longrightarrow> T b c \<longrightarrow> T a c" and "\<forall>a. T a a"
    and "\<forall>a x. T a (a\<lparr>trace := x\<rparr>)"
    and "\<forall>a p r b. ld a p = Some (r, b) \<longrightarrow> T a b"
    and run: "gather ld w filePath st = Some (r, st')"
  shows "T st st' \<and>
    (\<forall>mt deps toks. r = Inr (mt, deps, toks) \<longrightarrow>
       stat w filePath = Inr mt \<and>
       (\<exists>deps0 ast. sheet_of w filePath = Inr (deps0, ast) \<and>
          loop_post T ld w filePath (sheet_specs ast) deps0 st st' deps))"
proof (rule gather_rel[where T=T and ld=ld])
  show "gather ld w filePath st = Some (r, st')" by (rule run)
qed (use assms(1-4) in blast)+

lemma load'_deps_clean:
  assumes rc: "resolver_contract w"
  shows "deps_clean (cache st) \<Longrightarrow> load' n w st filePath = Some (r, st') \<Longrightarrow>
     deps_clean (cache st') \<and> (\<forall>res. r = Inr res \<longrightarrow> no_remote res)"
proof (induction n arbitrary: st filePath r st')
  case 0
  then show ?case by simp
next
  case (Suc n)
  define T where "T = (\<lambda>(a::locator) (b::locator). deps_clean (cache a) \<longrightarrow> deps_clean (cache b))"
  let ?ld = "load' n w"
  have tr: "\<forall>a b c. T a b \<longrightarrow> T b c \<longrightarrow> T a c" by (simp add: T_def)
  have rf: "\<forall>a. T a a" by (simp add: T_def)
  have tc: "\<forall>a x. T a (a\<lparr>trace := x\<rparr>)" by (simp add: T_def)
  have ld: "\<forall>a p r b. ?ld a p = Some (r, b) \<longrightarrow> T a b"
    unfolding T_def using Suc.IH by blast
  obtain x where chk: "snd (isCacheOutdated w filePath st) = st\<lparr>trace := x\<rparr>"
    using isCacheOutdated_trace by blast
  from Suc.prems(2) have "load_body ?ld w st filePath = Some (r, st')" by simp
  then show ?case
  proof (cases rule: load_body_cases)
    case (check_failed e)
    with chk have "st' = st\<lparr>trace := x\<rparr>" by simp
    with Suc.prems(1) check_failed(2) show ?thesis by simp
  next
    case (cached entry)
    with chk have "st' = st\<lparr>trace := x\<rparr>" by simp
    moreover have "no_remote (result entry)"
      using Suc.prems(1) cached(2) unfolding deps_clean_def by blast
    ultimately show ?thesis using Suc.prems(1) cached(3) by simp
  next
    case (gather_failed sa e)
    with chk have "sa = st\<lparr>trace := x\<rparr>" by simp
    with Suc.prems(1) have "deps_clean (cache sa)" by simp
    moreover have "T sa st'"
      using gather_rel_obj[where T=T and ld="?ld", OF tr rf tc ld gather_failed(2)] by simp
    ultimately show ?thesis using gather_failed(3) by (simp add: T_def)
  next
    case (rebuilt sa sb mt deps toks)
    with chk have "sa = st\<lparr>trace := x\<rparr>" by simp
    with Suc.prems(1) have csa: "deps_clean (cache sa)" by simp
    from gather_rel_obj[where T=T and ld="?ld", OF tr rf tc ld rebuilt(2)]
    obtain deps0 ast where tsb: "T sa sb" and sh: "sheet_of w filePath = Inr (deps0, ast)"
      and post: "loop_post T ?ld w filePath (sheet_specs ast) deps0 sa sb deps"
      by auto
    have csb: "deps_clean (cache sb)" using tsb csa by (simp add: T_def)
    have clean: "\<not> isIgnoredSpecifier d" if d: "d \<in> set deps" for d
    proof -
      from post d consider "d \<in> set deps0"
        | s q r1 where "loaded_via T ?ld w filePath sa sb s q r1" "d = q \<or> d \<in> set (dependencies r1)"
        unfolding loop_post_def by blast
      then show ?thesis
      proof cases
        case 1
        with sheet_of_deps_clean[OF sh] show ?thesis by blast
      next
        case 2
        from 2(1) obtain s1 s2 where res: "resolver w s filePath = Inr (Some q)"
          and t1: "T sa s1" and l: "?ld s1 q = Some (Inr r1, s2)"
          unfolding loaded_via_def by blast
        have q: "\<not> isIgnoredSpecifier q" using rc res unfolding resolver_contract_def by blast
        have "deps_clean (cache s1)" using t1 csa by (simp add: T_def)
        from Suc.IH[OF this l] have "no_remote r1" by simp
        with 2(2) q show ?thesis unfolding no_remote_def by blast
      qed
    qed
    have nr: "no_remote (finalize filePath deps toks)"
      unfolding no_remote_def using clean by (simp add: finalize_def)
    have "deps_clean (cache st')"
      unfolding rebuilt(4) using deps_clean_store[OF csb nr] by simp
    with nr rebuilt(3) show ?thesis by simp
  qed
qed



lemma locator_flag_roundtrip:
  assumes "\<not> loading st"
  shows "st\<lparr>loading := True, trace := x, loading := False\<rparr> = st\<lparr>trace := x\<rparr>"
  using assms by (cases st) simp


lemma dependencies_outdated_error:
  assumes "\<forall>p\<in>set pre. fresh w (cache st) p" "cache st d \<noteq> None" "stat w d = Inl e"
  shows "dependencies_outdated w (pre @ d # post) st =
           (Inl e, st\<lparr>trace := trace st @ map Stat (pre @ [d])\<rparr>)"
  using assms
proof (induction pre arbitrary: st)
  case Nil
  then show ?case by (auto simp: do_stat_def)
next
  case (Cons a pre)
  from Cons.prems(1) obtain entry where a: "cache st a = Some entry" "stat w a = Inr (mtime entry)"
    by (auto simp: fresh_def split: option.splits)
  have "dependencies_outdated w (pre @ d # post) (st\<lparr>trace := trace st @ [Stat a]\<rparr>) =
      (Inl e, st\<lparr>trace := trace st @ [Stat a]\<rparr>\<lparr>trace := trace (st\<lparr>trace := trace st @ [Stat a]\<rparr>) @ map Stat (pre @ [d])\<rparr>)"
    by (rule Cons.IH) (use Cons.prems in simp_all)
  with a show ?case by (simp add: do_stat_def)
qed

lemma import_targets_spec:
  assumes "q \<in> set (import_targets w p)"
  shows "\<exists>deps0 ast s. sheet_of w p = Inr (deps0, ast) \<and> s \<in> set (sheet_specs ast) \<and>
           resolver w s p = Inr (Some q)"
proof (cases "sheet_of w p")
  case (Inl e)
  with assms show ?thesis by (simp add: import_targets_def)
next
  case (Inr pair)
  obtain deps0 ast where pair: "pair = (deps0, ast)" by (cases pair)
  from assms Inr pair obtain s where "s \<in> set (sheet_specs ast)"
    "q \<in> set (case resolver w s p of Inr (Some q) \<Rightarrow> [q] | _ \<Rightarrow> [])"
    by (auto simp: import_targets_def)
  then have "s \<in> set (sheet_specs ast) \<and> resolver w s p = Inr (Some q)"
    by (auto split: sum.splits option.splits)
  with Inr pair show ?thesis by blast
qed

lemma isCacheOutdated_uncached:
  "cache st filePath = None \<Longrightarrow> isCacheOutdated w filePath st = (Inr True, st)"
  by (simp add: isCacheOutdated_def)

lemma load'_cycle:
  assumes closed: "\<forall>p\<in>C. \<exists>q\<in>C. q \<in> set (import_targets w p)"
  shows "\<forall>p\<in>C. cache st p = None \<Longrightarrow> load' n w st filePath = Some (r, st') \<Longrightarrow>
     (\<forall>p\<in>C. cache st' p = None) \<and> (filePath \<in> C \<longrightarrow> (\<exists>e. r = Inl e))"
proof (induction n arbitrary: st filePath r st')
  case 0
  then show ?case by simp
next
  case (Suc n)
  define T where "T = (\<lambda>(a::locator) (b::locator).
      (\<forall>p\<in>C. cache a p = None) \<longrightarrow> (\<forall>p\<in>C. cache b p = None))"
  let ?ld = "load' n w"
  have tr: "\<forall>a b c. T a b \<longrightarrow> T b c \<longrightarrow> T a c" by (simp add: T_def)
  have rf: "\<forall>a. T a a" by (simp add: T_def)
  have tc: "\<forall>a x. T a (a\<lparr>trace := x\<rparr>)" by (simp add: T_def)
  have ld: "\<forall>a p r b. ?ld a p = Some (r, b) \<longrightarrow> T a b"
    unfolding T_def using Suc.IH by blast
  obtain x where chk: "snd (isCacheOutdated w filePath st) = st\<lparr>trace := x\<rparr>"
    using isCacheOutdated_trace by blast
  from Suc.prems(2) have "load_body ?ld w st filePath = Some (r, st')" by simp
  then show ?case
  proof (cases rule: load_body_cases)
    case (check_failed e)
    with chk have "st' = st\<lparr>trace := x\<rparr>" by simp
    with Suc.prems(1) check_failed(2) show ?thesis by simp
  next
    case (cached entry)
    with chk have "st' = st\<lparr>trace := x\<rparr>" by simp
    moreover have "filePath \<notin> C" using Suc.prems(1) cached(2) by auto
    ultimately show ?thesis using Suc.prems(1) by simp
  next
    case (gather_failed sa e)
    with chk have "sa = st\<lparr>trace := x\<rparr>" by simp
    with Suc.prems(1) have "\<forall>p\<in>C. cache sa p = None" by simp
    moreover have "T sa st'"
      using gather_rel_obj[where T=T and ld="?ld", OF tr rf tc ld gather_failed(2)] by simp
    ultimately show ?thesis using gather_failed(3) by (simp add: T_def)
  next
    case (rebuilt sa sb mt deps toks)
    with chk have "sa = st\<lparr>trace := x\<rparr>" by simp
    with Suc.prems(1) have csa: "\<forall>p\<in>C. cache sa p = None" by simp
    from gather_rel_obj[where T=T and ld="?ld", OF tr rf tc ld rebuilt(2)]
    obtain deps0 ast where tsb: "T sa sb"
      and sh: "sheet_of w filePath = Inr (deps0, ast)"
      and post: "loop_post T ?ld w filePath (sheet_specs ast) deps0 sa sb deps"
      by auto
    have csb: "\<forall>p\<in>C. cache sb p = None" using tsb csa by (simp add: T_def)
    have notin: "filePath \<notin> C"
    proof
      assume "filePath \<in> C"
      with closed obtain q where q: "q \<in> C" "q \<in> set (import_targets w filePath)" by blast
      from import_targets_spec[OF q(2)] sh obtain s where s: "s \<in> set (sheet_specs ast)"
        and res: "resolver w s filePath = Inr (Some q)" by auto
      from post s obtain q' r1 where "loaded_via T ?ld w filePath sa sb s q' r1"
        unfolding loop_post_def by blast
      with res obtain s1 s2 where t1: "T sa s1" and l: "?ld s1 q = Some (Inr r1, s2)"
        unfolding loaded_via_def by auto
      have "\<forall>p\<in>C. cache s1 p = None" using t1 csa by (simp add: T_def)
      from Suc.IH[OF this l] q(1) show False by simp
    qed
    have "\<forall>p\<in>C. cache st' p = None" unfolding rebuilt(4) using csb notin by auto
    with notin show ?thesis by simp
  qed
qed

subsection \<open>The depth allowed never changes what a load returns\<close>

lemma bind_outcome_mono:
  assumes "bind_outcome m f = Some x" and "\<And>y. m = Some y \<Longrightarrow> m' = Some y"
    and "\<And>v s. f v s = Some x \<Longrightarrow> g v s = Some x"
  shows "bind_outcome m' g = Some x"
  using assms by (auto simp: bind_outcome_def split: option.splits sum.splits prod.splits)

lemma load_atImports_fuel:
  assumes le: "\<And>s p y. ld s p = Some y \<Longrightarrow> ld' s p = Some y"
  shows "load_atImports ld w filePath imps acc st = Some x \<Longrightarrow>
         load_atImports ld' w filePath imps acc st = Some x"
proof (induction imps arbitrary: acc st)
  case Nil
  then show ?case by simp
next
  case (Cons a imps)
  show ?case
  proof (cases "\<exists>s. a = Some s \<and> s \<noteq> [] \<and> \<not> isIgnoredSpecifier s")
    case False
    then have "load_atImports ld w filePath (a # imps) acc st = load_atImports ld w filePath imps acc st"
      "load_atImports ld' w filePath (a # imps) acc st = load_atImports ld' w filePath imps acc st"
      by (cases a; auto)+
    with Cons show ?thesis by simp
  next
    case True
    then obtain s where s: "a = Some s" "s \<noteq> []" "\<not> isIgnoredSpecifier s" by blast
    from Cons.prems s have run:
      "bind_outcome (Some (strict_resolver w s filePath st)) (\<lambda>from sa.
         bind_outcome (ld sa from) (\<lambda>r sb.
           load_atImports ld w filePath imps
             (fst acc @ from # dependencies r, snd acc @ tokens r) sb)) = Some x"
      by simp
    have "bind_outcome (Some (strict_resolver w s filePath st)) (\<lambda>from sa.
         bind_outcome (ld' sa from) (\<lambda>r sb.
           load_atImports ld' w filePath imps
             (fst acc @ from # dependencies r, snd acc @ tokens r) sb)) = Some x"
    proof (rule bind_outcome_mono[OF run])
      fix q sa
      assume "bind_outcome (ld sa q) (\<lambda>r sb.
           load_atImports ld w filePath imps
             (fst acc @ q # dependencies r, snd acc @ tokens r) sb) = Some x"
      then show "bind_outcome (ld' sa q) (\<lambda>r sb.
           load_atImports ld' w filePath imps
             (fst acc @ q # dependencies r, snd acc @ tokens r) sb) = Some x"
        by (rule bind_outcome_mono) (auto intro: le Cons.IH)
    qed simp
    with s show ?thesis by simp
  qed
qed

lemma load_atValues_fuel:
  assumes le: "\<And>s p y. ld s p = Some y \<Longrightarrow> ld' s p = Some y"
  shows "load_atValues ld w filePath vs acc st = Some x \<Longrightarrow>
         load_atValues ld' w filePath vs acc st = Some x"
proof (induction vs arbitrary: acc st)
  case Nil
  then show ?case by simp
next
  case (Cons v vs)
  show ?case
  proof (cases v)
    case (ValueDeclaration tokenName location)
    with Cons show ?thesis by simp
  next
    case (ValueImportDeclaration s imps')
    show ?thesis
    proof (cases "isIgnoredSpecifier s")
      case True
      with Cons ValueImportDeclaration show ?thesis by simp
    next
      case False
      from Cons.prems False ValueImportDeclaration have run:
        "bind_outcome (Some (strict_resolver w s filePath st)) (\<lambda>from sa.
           bind_outcome (ld sa from) (\<lambda>r sb.
             load_atValues ld w filePath vs
               (fst acc @ from # dependencies r, snd acc @ import_tokens imps' (tokens r)) sb))
         = Some x"
        by simp
      have "bind_outcome (Some (strict_resolver w s filePath st)) (\<lambda>from sa.
           bind_outcome (ld' sa from) (\<lambda>r sb.
             load_atValues ld' w filePath vs
               (fst acc @ from # dependencies r, snd acc @ import_tokens imps' (tokens r)) sb))
         = Some x"
      proof (rule bind_outcome_mono[OF run])
        fix q sa
        assume "bind_outcome (ld sa q) (\<lambda>r sb.
             load_atValues ld w filePath vs
               (fst acc @ q # dependencies r, snd acc @ import_tokens imps' (tokens r)) sb) = Some x"
        then show "bind_outcome (ld' sa q) (\<lambda>r sb.
             load_atValues ld' w filePath vs
               (fst acc @ q # dependencies r, snd acc @ import_tokens imps' (tokens r)) sb) = Some x"
          by (rule bind_outcome_mono) (auto intro: le Cons.IH)
      qed simp
      with False ValueImportDeclaration show ?thesis by simp
    qed
  qed
qed

lemma gather_fuel:
  assumes le: "\<And>s p y. ld s p = Some y \<Longrightarrow> ld' s p = Some y"
    and run: "gather ld w filePath st = Some x"
  shows "gather ld' w filePath st = Some x"
proof -
  have v: "bind_outcome (load_atValues ld' w filePath vs acc s) (\<lambda>acc2 st5.
       Some (Inr (mt, fst acc2, snd acc2), st5)) = Some x"
    if "bind_outcome (load_atValues ld w filePath vs acc s) (\<lambda>acc2 st5.
       Some (Inr (mt, fst acc2, snd acc2), st5)) = Some x" for vs acc s mt
  proof (rule bind_outcome_mono[OF that])
    fix y assume "load_atValues ld w filePath vs acc s = Some y"
    then show "load_atValues ld' w filePath vs acc s = Some y"
      by (rule load_atValues_fuel[where ld=ld and ld'=ld', rotated]) (rule le)
  qed
  have i: "bind_outcome (load_atImports ld' w filePath is acc s) (\<lambda>acc1 st4.
       bind_outcome (load_atValues ld' w filePath vs (fst acc1, snd acc1 @ ct) st4) (\<lambda>acc2 st5.
       Some (Inr (mt, fst acc2, snd acc2), st5))) = Some x"
    if "bind_outcome (load_atImports ld w filePath is acc s) (\<lambda>acc1 st4.
       bind_outcome (load_atValues ld w filePath vs (fst acc1, snd acc1 @ ct) st4) (\<lambda>acc2 st5.
       Some (Inr (mt, fst acc2, snd acc2), st5))) = Some x" for "is" vs acc s mt ct
  proof (rule bind_outcome_mono[OF that])
    fix y assume "load_atImports ld w filePath is acc s = Some y"
    then show "load_atImports ld' w filePath is acc s = Some y"
      by (rule load_atImports_fuel[where ld=ld and ld'=ld', rotated]) (rule le)
  next
    fix acc1 st4
    assume "bind_outcome (load_atValues ld w filePath vs (fst acc1, snd acc1 @ ct) st4) (\<lambda>acc2 st5.
       Some (Inr (mt, fst acc2, snd acc2), st5)) = Some x"
    then show "bind_outcome (load_atValues ld' w filePath vs (fst acc1, snd acc1 @ ct) st4) (\<lambda>acc2 st5.
       Some (Inr (mt, fst acc2, snd acc2), st5)) = Some x"
      by (rule v)
  qed
  from run show ?thesis
    unfolding gather_def
  proof (rule bind_outcome_mono)
    fix mt st1
    assume "bind_outcome (Some (readCSS w filePath st1)) (\<lambda>(css, smap, deps) st2.
     bind_outcome (Some (parse w css filePath (prev_map smap), st2)) (\<lambda>ast st3.
     bind_outcome (load_atImports ld w filePath (atImports ast) (deps, []) st3) (\<lambda>acc1 st4.
     bind_outcome (load_atValues ld w filePath (atValues ast)
                     (fst acc1, snd acc1 @ class_tokens ast) st4) (\<lambda>acc2 st5.
       Some (Inr (mt, fst acc2, snd acc2), st5))))) = Some x"
    then show "bind_outcome (Some (readCSS w filePath st1)) (\<lambda>(css, smap, deps) st2.
     bind_outcome (Some (parse w css filePath (prev_map smap), st2)) (\<lambda>ast st3.
     bind_outcome (load_atImports ld' w filePath (atImports ast) (deps, []) st3) (\<lambda>acc1 st4.
     bind_outcome (load_atValues ld' w filePath (atValues ast)
                     (fst acc1, snd acc1 @ class_tokens ast) st4) (\<lambda>acc2 st5.
       Some (Inr (mt, fst acc2, snd acc2), st5))))) = Some x"
    proof (rule bind_outcome_mono)
      fix triple st2
      assume a: "(case triple of (css, smap, deps) \<Rightarrow> \<lambda>st2.
         bind_outcome (Some (parse w css filePath (prev_map smap), st2)) (\<lambda>ast st3.
         bind_outcome (load_atImports ld w filePath (atImports ast) (deps, []) st3) (\<lambda>acc1 st4.
         bind_outcome (load_atValues ld w filePath (atValues ast)
                     (fst acc1, snd acc1 @ class_tokens ast) st4) (\<lambda>acc2 st5.
           Some (Inr (mt, fst acc2, snd acc2), st5))))) st2 = Some x"
      obtain css smap deps where t: "triple = (css, smap, deps)" by (cases triple)
      from a have "bind_outcome (Some (parse w css filePath (prev_map smap), st2)) (\<lambda>ast st3.
         bind_outcome (load_atImports ld w filePath (atImports ast) (deps, []) st3) (\<lambda>acc1 st4.
         bind_outcome (load_atValues ld w filePath (atValues ast)
                     (fst acc1, snd acc1 @ class_tokens ast) st4) (\<lambda>acc2 st5.
           Some (Inr (mt, fst acc2, snd acc2), st5)))) = Some x"
        unfolding t by simp
      then have "bind_outcome (Some (parse w css filePath (prev_map smap), st2)) (\<lambda>ast st3.
         bind_outcome (load_atImports ld' w filePath (atImports ast) (deps, []) st3) (\<lambda>acc1 st4.
         bind_outcome (load_atValues ld' w filePath (atValues ast)
                     (fst acc1, snd acc1 @ class_tokens ast) st4) (\<lambda>acc2 st5.
           Some (Inr (mt, fst acc2, snd acc2), st5)))) = Some x"
        by (rule bind_outcome_mono) (erule i | assumption)+
      then show "(case triple of (css, smap, deps) \<Rightarrow> \<lambda>st2.
         bind_outcome (Some (parse w css filePath (prev_map smap), st2)) (\<lambda>ast st3.
         bind_outcome (load_atImports ld' w filePath (atImports ast) (deps, []) st3) (\<lambda>acc1 st4.
         bind_outcome (load_atValues ld' w filePath (atValues ast)
                     (fst acc1, snd acc1 @ class_tokens ast) st4) (\<lambda>acc2 st5.
           Some (Inr (mt, fst acc2, snd acc2), st5))))) st2 = Some x"
        unfolding t by simp
    qed assumption
  qed assumption
qed

lemma load_body_fuel:
  assumes le: "\<And>s p y. ld s p = Some y \<Longrightarrow> ld' s p = Some y"
    and run: "load_body ld w st filePath = Some x"
  shows "load_body ld' w st filePath = Some x"
  using run unfolding load_body_def
proof (rule bind_outcome_mono)
  fix outdated st1
  assume a: "(if \<not> outdated then
         (case cache st1 filePath of
            None \<Rightarrow> Some (Inl TypeError, st1)
          | Some cacheEntry \<Rightarrow> Some (Inr (result cacheEntry), st1))
       else
         bind_outcome (gather ld w filePath st1) (\<lambda>(mt, deps, toks) st2.
           let r = finalize filePath deps toks in
           Some (Inr r, st2\<lparr>cache := (cache st2)(filePath \<mapsto> \<lparr>mtime = mt, result = r\<rparr>)\<rparr>))) = Some x"
  show "(if \<not> outdated then
         (case cache st1 filePath of
            None \<Rightarrow> Some (Inl TypeError, st1)
          | Some cacheEntry \<Rightarrow> Some (Inr (result cacheEntry), st1))
       else
         bind_outcome (gather ld' w filePath st1) (\<lambda>(mt, deps, toks) st2.
           let r = finalize filePath deps toks in
           Some (Inr r, st2\<lparr>cache := (cache st2)(filePath \<mapsto> \<lparr>mtime = mt, result = r\<rparr>)\<rparr>))) = Some x"
  proof (cases outdated)
    case False
    with a show ?thesis by simp
  next
    case True
    with a have "bind_outcome (gather ld w filePath st1) (\<lambda>(mt, deps, toks) st2.
           let r = finalize filePath deps toks in
           Some (Inr r, st2\<lparr>cache := (cache st2)(filePath \<mapsto> \<lparr>mtime = mt, result = r\<rparr>)\<rparr>)) = Some x"
      by simp
    then have "bind_outcome (gather ld' w filePath st1) (\<lambda>(mt, deps, toks) st2.
           let r = finalize filePath deps toks in
           Some (Inr r, st2\<lparr>cache := (cache st2)(filePath \<mapsto> \<lparr>mtime = mt, result = r\<rparr>)\<rparr>)) = Some x"
    proof (rule bind_outcome_mono)
      fix y assume "gather ld w filePath st1 = Some y"
      then show "gather ld' w filePath st1 = Some y"
        by (rule gather_fuel[where ld=ld and ld'=ld', rotated]) (rule le)
    qed assumption
    with True show ?thesis by simp
  qed
qed assumption

lemma load'_fuel_Suc: "load' n w st filePath = Some x \<Longrightarrow> load' (Suc n) w st filePath = Some x"
proof (induction n arbitrary: st filePath x)
  case 0
  then show ?case by simp
next
  case (Suc n)
  from Suc.prems have "load_body (load' n w) w st filePath = Some x" by simp
  then have "load_body (load' (Suc n) w) w st filePath = Some x"
    by (rule load_body_fuel[rotated]) (rule Suc.IH)
  then show ?case by simp
qed

lemma load'_fuel_mono:
  assumes "load' n w st filePath = Some x" "n \<le> m"
  shows "load' m w st filePath = Some x"
  using assms(2,1)
  by (induction m rule: dec_induct) (blast intro: load'_fuel_Suc)+

lemma load_fuel_mono:
  assumes "load n w st filePath = Some x" "n \<le> m"
  shows "load m w st filePath = Some x"
  using assms load'_fuel_mono[of n w "st\<lparr>loading := True\<rparr>" filePath _ m]
  by (auto simp: load_def split: if_splits option.splits)

lemmas ex_eval = load_def init_locator_def ex_world_def load_body_def isCacheOutdated_def gather_def
  do_stat_def readCSS_def prev_map_def ex_sheet_a_def ex_sheet_b_def isIgnoredSpecifier_def
  startsWith_def strict_resolver_def class_tokens_def finalize_def unique_def uniqueBy_def
  stringify_def stringify_location_def ex_loc_def ex_imports_def ex_result_b_def Let_def
  ex_scss_world_def ex_scss_def ex_less_def ex_sheet_scss_def ex_sheet_plain_def
  defaultTransformer_def endsWith_def ex_scss_result_def ex_scss_cached_def
  ex_scss_deleted_world_def ex_deleted_world_def ex_cycle_world_def
  ex_sheet_m_def ex_sheet_c_def

lemma ex_self_diverges:
  "cache st ''/self.css'' = None \<Longrightarrow> load' n ex_cycle_world st ''/self.css'' = None"
proof (induction n arbitrary: st)
  case 0
  show ?case by simp
next
  case (Suc n)
  have "load' n ex_cycle_world (st\<lparr>trace := x\<rparr>) ''/self.css'' = None" for x
    by (rule Suc.IH) (simp add: Suc.prems)
  then show ?case using Suc.prems
    by (simp add: ex_eval)
qed

section \<open>Tokens of \<open>@value ... from\<close> imports\<close>

text \<open>
  Claim C6. When the loop over the \<open>@value\<close>s handles one import declaration whose specifier
  is not ignored and succeeds, the specifier resolved to a sheet that was loaded, and the
  tokens pushed are those of \<open>import_tokens\<close>. Each of them comes from a token \<open>src\<close> of the
  loaded sheet and an entry \<open>i\<close> of the declaration that imports the name of \<open>src\<close>: it is
  named by the local alias, it has an \<open>importedName\<close> exactly when the alias differs from the
  imported name (and then it is the imported name), and its \<open>originalLocation\<close> is the one
  \<open>src\<close> has in the result of the loaded sheet.
\<close>

theorem value_import_token_fields:
  assumes "load_atValues ld w filePath [ValueImportDeclaration s imps] acc st = Some (Inr acc', st')"
    and "\<not> isIgnoredSpecifier s"
  shows "\<exists>q sa r. resolver w s filePath = Inr (Some q) \<and> ld sa q = Some (Inr r, st') \<and>
           snd acc' = snd acc @ import_tokens imps (tokens r) \<and>
           (\<forall>t\<in>set (import_tokens imps (tokens r)).
              \<exists>src\<in>set (tokens r). \<exists>i\<in>set imps.
                 importedTokenName i = name src \<and>
                 name t = localTokenName i \<and>
                 (importedName t \<noteq> None \<longleftrightarrow> localTokenName i \<noteq> importedTokenName i) \<and>
                 (\<forall>x. importedName t = Some x \<longrightarrow> x = importedTokenName i) \<and>
                 originalLocation t = originalLocation src)"
proof -
  let ?sa = "st\<lparr>trace := trace st @ [Resolve s filePath]\<rparr>"
  obtain q where res: "resolver w s filePath = Inr (Some q)"
    using assms by (cases "resolver w s filePath" rule: sum.exhaust[case_names Inl Inr])
      (auto simp: strict_resolver_def Let_def split: option.splits)
  from assms(1) have "bind_outcome (ld ?sa q) (\<lambda>r sb.
       load_atValues ld w filePath []
         (fst acc @ q # dependencies r, snd acc @ import_tokens imps (tokens r)) sb)
       = Some (Inr acc', st')"
    unfolding value_import_step[OF assms(2) res] .
  then obtain r where ld: "ld ?sa q = Some (Inr r, st')"
    and acc': "acc' = (fst acc @ q # dependencies r, snd acc @ import_tokens imps (tokens r))"
    by (cases rule: bind_outcome_SomeE) auto
  have tok: "\<exists>src\<in>set (tokens r). \<exists>i\<in>set imps.
                 importedTokenName i = name src \<and>
                 name t = localTokenName i \<and>
                 (importedName t \<noteq> None \<longleftrightarrow> localTokenName i \<noteq> importedTokenName i) \<and>
                 (\<forall>x. importedName t = Some x \<longrightarrow> x = importedTokenName i) \<and>
                 originalLocation t = originalLocation src"
    if "t \<in> set (import_tokens imps (tokens r))" for t
  proof -
    from import_tokens_origin[OF that] obtain src i where
      "src \<in> set (tokens r)" "i \<in> set imps" "importedTokenName i = name src" "t = aliased i src"
      by blast
    then show ?thesis by (auto simp: aliased_def intro!: bexI[of _ src] bexI[of _ i])
  qed
  show ?thesis
  proof (intro exI conjI)
    show "resolver w s filePath = Inr (Some q)" by (rule res)
    show "ld ?sa q = Some (Inr r, st')" by (rule ld)
    show "snd acc' = snd acc @ import_tokens imps (tokens r)" using acc' by simp
    show "\<forall>t\<in>set (import_tokens imps (tokens r)).
              \<exists>src\<in>set (tokens r). \<exists>i\<in>set imps.
                 importedTokenName i = name src \<and>
                 name t = localTokenName i \<and>
                 (importedName t \<noteq> None \<longleftrightarrow> localTokenName i \<noteq> importedTokenName i) \<and>
                 (\<forall>x. importedName t = Some x \<longrightarrow> x = importedTokenName i) \<and>
                 originalLocation t = originalLocation src"
      using tok by blast
  qed
qed

text \<open>
  In the example, \<open>/a.css\<close> imports \<open>x\<close>, \<open>y as z\<close>, \<open>y as z2\<close> and \<open>nope as n\<close> from
  \<open>./b.css\<close>, whose sheet is loaded by \<open>_load\<close> itself.
\<close>

theorem value_import_token_fields_witness:
  "\<exists>acc' st'.
     load_atValues (load' (Suc 0) ex_world) ex_world ''/a.css''
       [ValueImportDeclaration ''./b.css'' ex_imports] ([], []) init_locator = Some (Inr acc', st') \<and>
     \<not> isIgnoredSpecifier ''./b.css'' \<and>
     map name (snd acc') = [''x'', ''z''] \<and>
     map importedName (snd acc') = [None, Some ''y''] \<and>
     map originalLocation (snd acc') = [ex_loc ''/b.css'' 2, ex_loc ''/b.css'' 3] \<and>
     (\<exists>q sa r. resolver ex_world ''./b.css'' ''/a.css'' = Inr (Some q) \<and>
        load' (Suc 0) ex_world sa q = Some (Inr r, st') \<and>
        snd acc' = snd ([]::path list, []::Token list) @ import_tokens ex_imports (tokens r) \<and>
        (\<forall>t\<in>set (import_tokens ex_imports (tokens r)).
              \<exists>src\<in>set (tokens r). \<exists>i\<in>set ex_imports.
                 importedTokenName i = name src \<and>
                 name t = localTokenName i \<and>
                 (importedName t \<noteq> None \<longleftrightarrow> localTokenName i \<noteq> importedTokenName i) \<and>
                 (\<forall>x. importedName t = Some x \<longrightarrow> x = importedTokenName i) \<and>
                 originalLocation t = originalLocation src))"
proof -
  have "\<exists>acc' st'.
    load_atValues (load' (Suc 0) ex_world) ex_world ''/a.css''
       [ValueImportDeclaration ''./b.css'' ex_imports] ([], []) init_locator = Some (Inr acc', st') \<and>
    snd acc' =
       [\<lparr>name = ''x'', importedName = None, originalLocation = ex_loc ''/b.css'' 2\<rparr>,
        \<lparr>name = ''z'', importedName = Some ''y'', originalLocation = ex_loc ''/b.css'' 3\<rparr>]"
    by (simp add: ex_eval)
  then obtain acc' st' where run:
    "load_atValues (load' (Suc 0) ex_world) ex_world ''/a.css''
       [ValueImportDeclaration ''./b.css'' ex_imports] ([], []) init_locator = Some (Inr acc', st')"
    and toks: "snd acc' =
       [\<lparr>name = ''x'', importedName = None, originalLocation = ex_loc ''/b.css'' 2\<rparr>,
        \<lparr>name = ''z'', importedName = Some ''y'', originalLocation = ex_loc ''/b.css'' 3\<rparr>]"
    by blast
  have ign: "\<not> isIgnoredSpecifier ''./b.css''"
    by (simp add: isIgnoredSpecifier_def startsWith_def)
  note concl = value_import_token_fields[OF run ign]
  have fields: "map name (snd acc') = [''x'', ''z'']"
    "map importedName (snd acc') = [None, Some ''y'']"
    "map originalLocation (snd acc') = [ex_loc ''/b.css'' 2, ex_loc ''/b.css'' 3]"
    unfolding toks by simp_all
  show ?thesis
    by (intro exI[of _ acc'] exI[of _ st'] conjI) (fact run ign fields concl)+
qed

text \<open>
  Claim C7. An entry of a \<open>@value ... from\<close> declaration whose imported name is the name of
  no token of the loaded source sheet changes nothing: the loop behaves as for the
  declaration without the entry, and a declaration that lists only such an entry succeeds,
  pushing the dependencies and no token.
\<close>

theorem unmatched_import_contributes_nothing:
  assumes "\<not> isIgnoredSpecifier s" "resolver w s filePath = Inr (Some q)"
    and "ld (st\<lparr>trace := trace st @ [Resolve s filePath]\<rparr>) q = Some (Inr r, sb)"
    and "importedTokenName i \<notin> name ` set (tokens r)"
  shows "load_atValues ld w filePath (ValueImportDeclaration s (pre @ i # post) # rest) acc st =
         load_atValues ld w filePath (ValueImportDeclaration s (pre @ post) # rest) acc st
       \<and> load_atValues ld w filePath [ValueImportDeclaration s [i]] acc st =
         Some (Inr (fst acc @ q # dependencies r, snd acc), sb)"
proof -
  have "import_tokens (pre @ i # post) (tokens r) = import_tokens (pre @ post) (tokens r)"
    using assms(4) by (rule import_tokens_unmatched)
  moreover have "import_tokens [i] (tokens r) = []"
    using import_tokens_unmatched[OF assms(4), of "[]" "[]"] import_tokens_origin[of _ "[]" "tokens r"]
    by (cases "import_tokens [] (tokens r)") auto
  ultimately show ?thesis
    using assms(3) by (simp add: value_import_step[OF assms(1,2)] del: load_atValues.simps(3))
qed

text \<open>The entry \<open>nope as n\<close> of the example: \<open>/b.css\<close> has no token \<open>nope\<close>.\<close>

theorem unmatched_import_contributes_nothing_witness:
  "\<exists>sb. \<not> isIgnoredSpecifier ''./b.css'' \<and>
     resolver ex_world ''./b.css'' ''/a.css'' = Inr (Some ''/b.css'') \<and>
     load' (Suc 0) ex_world (init_locator\<lparr>trace := trace init_locator @ [Resolve ''./b.css'' ''/a.css'']\<rparr>)
       ''/b.css'' = Some (Inr ex_result_b, sb) \<and>
     ''nope'' \<notin> name ` set (tokens ex_result_b) \<and>
     load_atValues (load' (Suc 0) ex_world) ex_world ''/a.css''
       [ValueImportDeclaration ''./b.css'' [\<lparr>importedTokenName = ''nope'', localTokenName = ''n''\<rparr>]]
       ([], []) init_locator = Some (Inr ([''/b.css''], []), sb)"
proof -
  let ?i = "\<lparr>importedTokenName = ''nope'', localTokenName = ''n''\<rparr>"
  have ign: "\<not> isIgnoredSpecifier ''./b.css''"
    by (simp add: isIgnoredSpecifier_def startsWith_def)
  have res: "resolver ex_world ''./b.css'' ''/a.css'' = Inr (Some ''/b.css'')"
    by (simp add: ex_world_def)
  have "\<exists>sb. load' (Suc 0) ex_world
       (init_locator\<lparr>trace := trace init_locator @ [Resolve ''./b.css'' ''/a.css'']\<rparr>)
       ''/b.css'' = Some (Inr ex_result_b, sb)"
    by (simp add: ex_eval)
  then obtain sb where ld: "load' (Suc 0) ex_world
       (init_locator\<lparr>trace := trace init_locator @ [Resolve ''./b.css'' ''/a.css'']\<rparr>)
       ''/b.css'' = Some (Inr ex_result_b, sb)"
    by blast
  have un: "importedTokenName ?i \<notin> name ` set (tokens ex_result_b)"
    by (simp add: ex_result_b_def)
  have acc: "(fst ([], []) @ ''/b.css'' # dependencies ex_result_b, snd ([], [])) =
      ([''/b.css''], [])"
    by (simp add: ex_result_b_def)
  have run: "load_atValues (load' (Suc 0) ex_world) ex_world ''/a.css''
       [ValueImportDeclaration ''./b.css'' [?i]] ([], []) init_locator =
       Some (Inr ([''/b.css''], []), sb)"
    using unmatched_import_contributes_nothing[where ld="load' (Suc 0) ex_world" and pre="[]"
      and post="[]" and rest="[]" and acc="([], [])", OF ign res ld un, THEN conjunct2]
    unfolding acc .
  have un': "''nope'' \<notin> name ` set (tokens ex_result_b)" using un by simp
  show ?thesis
    by (intro exI[of _ sb] conjI) (fact ign res ld un' run)+
qed

text \<open>
  Claim C9. When a declaration lists an imported name twice, the later entry \<open>j\<close> changes
  nothing: the tokens are those of the declaration without it. If no entry before \<open>i\<close>
  imports that name, a source token of that name yields exactly one token, the one named by
  the alias of \<open>i\<close>.
\<close>

theorem first_alias_wins:
  assumes "importedTokenName j = importedTokenName i"
  shows "import_tokens (pre @ i # mid @ j # post) toks = import_tokens (pre @ i # mid @ post) toks
       \<and> (importedTokenName i \<notin> importedTokenName ` set pre \<longrightarrow>
            name src = importedTokenName i \<longrightarrow>
            import_tokens (pre @ i # mid @ j # post) [src] = [aliased i src])"
proof
  show "import_tokens (pre @ i # mid @ j # post) toks = import_tokens (pre @ i # mid @ post) toks"
    using assms by (rule import_tokens_shadowed)
  show "importedTokenName i \<notin> importedTokenName ` set pre \<longrightarrow>
            name src = importedTokenName i \<longrightarrow>
            import_tokens (pre @ i # mid @ j # post) [src] = [aliased i src]"
  proof (intro impI)
    assume pre: "importedTokenName i \<notin> importedTokenName ` set pre"
      and src: "name src = importedTokenName i"
    have "find (\<lambda>e. importedTokenName e = name src) (pre @ i # mid @ j # post) = Some i"
    proof (rule find_first)
      show "\<forall>e\<in>set pre. \<not> importedTokenName e = name src"
        using pre src by (auto simp: image_iff)
      show "importedTokenName i = name src" using src by simp
    qed
    then show "import_tokens (pre @ i # mid @ j # post) [src] = [aliased i src]"
      by (simp only: import_tokens_Cons import_tokens.simps(1) option.simps)
  qed
qed

text \<open>The entries \<open>y as z\<close> and \<open>y as z2\<close> of the example, and the token \<open>y\<close> of \<open>/b.css\<close>.\<close>

theorem first_alias_wins_witness:
  "importedTokenName \<lparr>importedTokenName = ''y'', localTokenName = ''z2''\<rparr> =
     importedTokenName \<lparr>importedTokenName = ''y'', localTokenName = ''z''\<rparr> \<and>
   import_tokens ex_imports (tokens ex_result_b) =
     import_tokens [\<lparr>importedTokenName = ''x'', localTokenName = ''x''\<rparr>,
                    \<lparr>importedTokenName = ''y'', localTokenName = ''z''\<rparr>,
                    \<lparr>importedTokenName = ''nope'', localTokenName = ''n''\<rparr>] (tokens ex_result_b) \<and>
   import_tokens ex_imports
     [\<lparr>name = ''y'', importedName = None, originalLocation = ex_loc ''/b.css'' 3\<rparr>] =
     [\<lparr>name = ''z'', importedName = Some ''y'', originalLocation = ex_loc ''/b.css'' 3\<rparr>]"
  using first_alias_wins[of "\<lparr>importedTokenName = ''y'', localTokenName = ''z2''\<rparr>"
      "\<lparr>importedTokenName = ''y'', localTokenName = ''z''\<rparr>"
      "[\<lparr>importedTokenName = ''x'', localTokenName = ''x''\<rparr>]" "[]"
      "[\<lparr>importedTokenName = ''nope'', localTokenName = ''n''\<rparr>]" "tokens ex_result_b"
      "\<lparr>name = ''y'', importedName = None, originalLocation = ex_loc ''/b.css'' 3\<rparr>"]
  by (simp add: ex_imports_def aliased_def)

section \<open>The concurrency guard\<close>



section \<open>A transformer that does not handle the file\<close>

text \<open>
  Claim C8. When the configured transformer returns \<open>false\<close> for the source of a file,
  \<open>readCSS\<close> returns the source as read, no map and no dependencies, which is what it returns
  with no transformer configured; so does everything \<open>_load\<close> computes for that file from the
  \<open>stat\<close> to the end of its loops. With a transformer that returns \<open>false\<close> for every file,
  \<open>load\<close> is the \<open>load\<close> of the Locator without transformer. The default transformer returns
  \<open>false\<close> for every path that ends neither in \<open>.scss\<close> nor in \<open>.less\<close>.
\<close>

theorem transformer_false_as_unconfigured:
  assumes "transformer w = Some t" "readFile w filePath = Inr source" "t source filePath = Inr None"
  shows "readCSS w filePath st =
           (Inr (source, None, []), st\<lparr>trace := trace st @ [ReadFile filePath]\<rparr>)
       \<and> readCSS w filePath st = readCSS (w\<lparr>transformer := None\<rparr>) filePath st
       \<and> gather ld w filePath st = gather ld (w\<lparr>transformer := None\<rparr>) filePath st
       \<and> ((\<forall>src p. t src p = Inr None) \<longrightarrow>
            load n w st p = load n (w\<lparr>transformer := None\<rparr>) st p)
       \<and> (\<not> endsWith filePath ''.scss'' \<and> \<not> endsWith filePath ''.less'' \<longrightarrow>
            defaultTransformer scssTransformer lessTransformer source filePath = Inr None)"
proof (intro conjI impI)
  show v: "readCSS w filePath st =
           (Inr (source, None, []), st\<lparr>trace := trace st @ [ReadFile filePath]\<rparr>)"
    using assms by (rule readCSS_not_handled)
  show e: "readCSS w filePath st = readCSS (w\<lparr>transformer := None\<rparr>) filePath st" for st
    using assms by (simp add: readCSS_not_handled readCSS_unconfigured)
  show "gather ld w filePath st = gather ld (w\<lparr>transformer := None\<rparr>) filePath st"
    by (rule gather_cong) (simp_all add: e)
next
  assume all: "\<forall>src p. t src p = Inr None"
  have "readCSS w q s = readCSS (w\<lparr>transformer := None\<rparr>) q s" for q s
    using assms(1) all by (simp add: readCSS_def Let_def split: sum.splits)
  then show "load n w st p = load n (w\<lparr>transformer := None\<rparr>) st p"
    by (intro load_world_cong) simp_all
next
  assume "\<not> endsWith filePath ''.scss'' \<and> \<not> endsWith filePath ''.less''"
  then show "defaultTransformer scssTransformer lessTransformer source filePath = Inr None"
    by (simp add: defaultTransformer_def)
qed

text \<open>
  The default transformer on \<open>/plain.css\<close>, and the example with a transformer that handles
  nothing.
\<close>

theorem transformer_false_as_unconfigured_witness:
  "transformer ex_scss_world = Some (defaultTransformer ex_scss ex_less) \<and>
   readFile ex_scss_world ''/plain.css'' = Inr ''P'' \<and>
   defaultTransformer ex_scss ex_less ''P'' ''/plain.css'' = Inr None \<and>
   readCSS ex_scss_world ''/plain.css'' init_locator =
     (Inr (''P'', None, []), init_locator\<lparr>trace := trace init_locator @ [ReadFile ''/plain.css'']\<rparr>) \<and>
   readCSS ex_scss_world ''/plain.css'' init_locator =
     readCSS (ex_scss_world\<lparr>transformer := None\<rparr>) ''/plain.css'' init_locator \<and>
   load (Suc (Suc 0)) (ex_world\<lparr>transformer := Some (\<lambda>source from. Inr None)\<rparr>) init_locator ''/a.css'' =
     load (Suc (Suc 0)) (ex_world\<lparr>transformer := Some (\<lambda>source from. Inr None), transformer := None\<rparr>)
       init_locator ''/a.css''"
proof -
  have t: "transformer ex_scss_world = Some (defaultTransformer ex_scss ex_less)"
    by (simp add: ex_scss_world_def)
  have rd: "readFile ex_scss_world ''/plain.css'' = Inr ''P''"
    by (simp add: ex_scss_world_def)
  have no: "defaultTransformer ex_scss ex_less ''P'' ''/plain.css'' = Inr None"
    by (simp add: defaultTransformer_def endsWith_def)
  note one = transformer_false_as_unconfigured[OF t rd no, of init_locator]
  have t2: "transformer (ex_world\<lparr>transformer := Some (\<lambda>source from. Inr None)\<rparr>) =
      Some (\<lambda>source from. Inr None)"
    by simp
  have rd2: "readFile (ex_world\<lparr>transformer := Some (\<lambda>source from. Inr None)\<rparr>) ''/a.css'' = Inr ''A''"
    by (simp add: ex_world_def)
  have no2: "(\<lambda>source from. Inr None :: error + TransformResult option) ''A'' ''/a.css'' = Inr None"
    by simp
  have two: "load (Suc (Suc 0)) (ex_world\<lparr>transformer := Some (\<lambda>source from. Inr None)\<rparr>) init_locator ''/a.css'' =
     load (Suc (Suc 0)) (ex_world\<lparr>transformer := Some (\<lambda>source from. Inr None), transformer := None\<rparr>)
       init_locator ''/a.css''"
    using transformer_false_as_unconfigured[OF t2 rd2 no2, where n="Suc (Suc 0)" and st=init_locator
        and p="''/a.css''"]
    by blast
  from t rd no one two show ?thesis by blast
qed

section \<open>The result of a load\<close>

text \<open>
  Claim C4. A load that starts in a state the Locator can be in and returns a result,
  returns dependencies without the file itself and without repetition, and tokens no two
  of which are equal, nor have the same \<open>JSON.stringify\<close> key. When the file is rebuilt, the
  result is the \<open>finalize\<close> of the arrays that the loops pushed to: the dependencies are the
  pushed paths other than the file, in the order of their first push, and the tokens are
  the pushed tokens.
\<close>

theorem load_result_invariants:
  assumes "reachable st" and "load n w st filePath = Some (Inr res, st')"
  shows "filePath \<notin> set (dependencies res) \<and> distinct (dependencies res) \<and>
         distinct (tokens res) \<and> distinct (map stringify (tokens res)) \<and>
         (n = Suc m \<longrightarrow> isCacheOutdated w filePath (st\<lparr>loading := True\<rparr>) = (Inr True, sa) \<longrightarrow>
          gather (load' m w) w filePath sa = Some (Inr (mt, deps, toks), sb) \<longrightarrow>
            res = finalize filePath deps toks \<and>
            set (dependencies res) = set deps - {filePath} \<and>
            sorted_wrt (\<lambda>a b. first_index deps a < first_index deps b) (dependencies res) \<and>
            set (tokens res) = set toks)"
proof -
  from assms(2) obtain s1 where run: "load' n w (st\<lparr>loading := True\<rparr>) filePath = Some (Inr res, s1)"
    by (cases rule: load_cases) auto
  have ok: "cache_ok (cache (st\<lparr>loading := True\<rparr>))"
    using reachable_cache_ok[OF assms(1)] by simp
  from load'_result_ok[OF ok run] have r: "result_ok filePath res" .
  have "distinct (map stringify (tokens res))"
    using r inj_on_subset[OF inj_stringify subset_UNIV] by (simp add: result_ok_def distinct_map)
  moreover have "res = finalize filePath deps toks \<and>
            set (dependencies res) = set deps - {filePath} \<and>
            sorted_wrt (\<lambda>a b. first_index deps a < first_index deps b) (dependencies res) \<and>
            set (tokens res) = set toks"
    if "n = Suc m" "isCacheOutdated w filePath (st\<lparr>loading := True\<rparr>) = (Inr True, sa)"
      "gather (load' m w) w filePath sa = Some (Inr (mt, deps, toks), sb)"
  proof -
    from run that have "res = finalize filePath deps toks"
      by (simp add: load_body_def Let_def)
    then show ?thesis
      using finalize_order[of filePath deps toks] set_uniqueBy_stringify[of toks]
      by (simp add: finalize_def)
  qed
  ultimately show ?thesis using r unfolding result_ok_def by blast
qed

theorem load_result_invariants_witness:
  "reachable init_locator \<and>
   (\<exists>res st' toks sb.
      load (Suc (Suc 0)) ex_world init_locator ''/a.css'' = Some (Inr res, st') \<and>
      isCacheOutdated ex_world ''/a.css'' (init_locator\<lparr>loading := True\<rparr>) =
        (Inr True, init_locator\<lparr>loading := True\<rparr>) \<and>
      gather (load' (Suc 0) ex_world) ex_world ''/a.css'' (init_locator\<lparr>loading := True\<rparr>) =
        Some (Inr (10, [''/b.css'', ''/b.css''], toks), sb) \<and>
      dependencies res = [''/b.css''] \<and>
      ''/a.css'' \<notin> set (dependencies res) \<and> distinct (dependencies res) \<and>
      distinct (tokens res) \<and> res = finalize ''/a.css'' [''/b.css'', ''/b.css''] toks) \<and>
   (\<exists>res st' toks sb.
      load (Suc 0) ex_scss_world init_locator ''/a.scss'' = Some (Inr res, st') \<and>
      gather (load' 0 ex_scss_world) ex_scss_world ''/a.scss'' (init_locator\<lparr>loading := True\<rparr>) =
        Some (Inr (30, [''/a.scss'', ''/b.scss''], toks), sb) \<and>
      dependencies res = [''/b.scss''] \<and>
      ''/a.scss'' \<notin> set (dependencies res) \<and> distinct (dependencies res) \<and>
      distinct (tokens res) \<and> res = finalize ''/a.scss'' [''/a.scss'', ''/b.scss''] toks)"
proof -
  let ?s0 = "init_locator\<lparr>loading := True\<rparr>"
  have chk1: "isCacheOutdated ex_world ''/a.css'' ?s0 = (Inr True, ?s0)"
    by (simp add: isCacheOutdated_def init_locator_def)
  have chk2: "isCacheOutdated ex_scss_world ''/a.scss'' ?s0 = (Inr True, ?s0)"
    by (simp add: isCacheOutdated_def init_locator_def)
  have "\<exists>res st'. load (Suc (Suc 0)) ex_world init_locator ''/a.css'' = Some (Inr res, st') \<and>
      dependencies res = [''/b.css'']"
    by (simp add: ex_eval)
  then obtain r1 s1 where l1: "load (Suc (Suc 0)) ex_world init_locator ''/a.css'' = Some (Inr r1, s1)"
    and d1: "dependencies r1 = [''/b.css'']" by blast
  have "\<exists>toks sb. gather (load' (Suc 0) ex_world) ex_world ''/a.css'' ?s0 =
        Some (Inr (10, [''/b.css'', ''/b.css''], toks), sb)"
    by (simp add: ex_eval)
  then obtain t1 b1 where g1: "gather (load' (Suc 0) ex_world) ex_world ''/a.css'' ?s0 =
        Some (Inr (10, [''/b.css'', ''/b.css''], t1), b1)" by blast
  have "\<exists>res st'. load (Suc 0) ex_scss_world init_locator ''/a.scss'' = Some (Inr res, st') \<and>
      dependencies res = [''/b.scss'']"
    by (simp add: ex_eval)
  then obtain r2 s2 where l2: "load (Suc 0) ex_scss_world init_locator ''/a.scss'' = Some (Inr r2, s2)"
    and d2: "dependencies r2 = [''/b.scss'']" by blast
  have "\<exists>toks sb. gather (load' 0 ex_scss_world) ex_scss_world ''/a.scss'' ?s0 =
        Some (Inr (30, [''/a.scss'', ''/b.scss''], toks), sb)"
    by (simp add: ex_eval)
  then obtain t2 b2 where g2: "gather (load' 0 ex_scss_world) ex_scss_world ''/a.scss'' ?s0 =
        Some (Inr (30, [''/a.scss'', ''/b.scss''], t2), b2)" by blast
  note i1 = load_result_invariants[OF reachable.init l1, where m="Suc 0" and sa="?s0" and mt=10
      and deps="[''/b.css'', ''/b.css'']" and toks=t1 and sb=b1]
  note i2 = load_result_invariants[OF reachable.init l2, where m=0 and sa="?s0" and mt=30
      and deps="[''/a.scss'', ''/b.scss'']" and toks=t2 and sb=b2]
  have a1: "''/a.css'' \<notin> set (dependencies r1)" "distinct (dependencies r1)"
    "distinct (tokens r1)" "r1 = finalize ''/a.css'' [''/b.css'', ''/b.css''] t1"
    using i1 chk1 g1 by blast+
  have a2: "''/a.scss'' \<notin> set (dependencies r2)" "distinct (dependencies r2)"
    "distinct (tokens r2)" "r2 = finalize ''/a.scss'' [''/a.scss'', ''/b.scss''] t2"
    using i2 chk2 g2 by blast+
  show ?thesis
  proof (intro conjI)
    show "reachable init_locator" by (rule reachable.init)
    show "\<exists>res st' toks sb.
      load (Suc (Suc 0)) ex_world init_locator ''/a.css'' = Some (Inr res, st') \<and>
      isCacheOutdated ex_world ''/a.css'' (init_locator\<lparr>loading := True\<rparr>) =
        (Inr True, init_locator\<lparr>loading := True\<rparr>) \<and>
      gather (load' (Suc 0) ex_world) ex_world ''/a.css'' (init_locator\<lparr>loading := True\<rparr>) =
        Some (Inr (10, [''/b.css'', ''/b.css''], toks), sb) \<and>
      dependencies res = [''/b.css''] \<and>
      ''/a.css'' \<notin> set (dependencies res) \<and> distinct (dependencies res) \<and>
      distinct (tokens res) \<and> res = finalize ''/a.css'' [''/b.css'', ''/b.css''] toks"
      by (intro exI[of _ r1] exI[of _ s1] exI[of _ t1] exI[of _ b1] conjI) (fact l1 chk1 g1 d1 a1)+
    show "\<exists>res st' toks sb.
      load (Suc 0) ex_scss_world init_locator ''/a.scss'' = Some (Inr res, st') \<and>
      gather (load' 0 ex_scss_world) ex_scss_world ''/a.scss'' (init_locator\<lparr>loading := True\<rparr>) =
        Some (Inr (30, [''/a.scss'', ''/b.scss''], toks), sb) \<and>
      dependencies res = [''/b.scss''] \<and>
      ''/a.scss'' \<notin> set (dependencies res) \<and> distinct (dependencies res) \<and>
      distinct (tokens res) \<and> res = finalize ''/a.scss'' [''/a.scss'', ''/b.scss''] toks"
      by (intro exI[of _ r2] exI[of _ s2] exI[of _ t2] exI[of _ b2] conjI) (fact l2 g2 d2 a2)+
  qed
qed

section \<open>Remote specifiers\<close>

text \<open>
  Claim C5. \<open>isIgnoredSpecifier\<close> holds exactly for the specifiers that begin with
  \<open>http://\<close> or \<open>https://\<close>. An ignored \<open>@import\<close>, and an ignored \<open>@value ... from\<close>, is passed
  over: whatever the resolver and the loader would do, the loop returns what it returns for
  the sheet without it, with the same state, so that nothing is resolved, no error arises
  and nothing is pushed. With a resolver that keeps its contract, a load keeps remote
  specifiers out of the dependencies stored in the cache, and no ignored specifier is among
  the dependencies it returns.
\<close>

theorem ignored_specifiers_skipped:
  "(isIgnoredSpecifier s \<longleftrightarrow> (\<exists>rest. s = ''http://'' @ rest \<or> s = ''https://'' @ rest)) \<and>
   (isIgnoredSpecifier s \<longrightarrow>
      load_atImports ld w filePath (pre @ Some s # post) acc st =
        load_atImports ld w filePath (pre @ post) acc st \<and>
      load_atValues ld w filePath (vpre @ ValueImportDeclaration s imps # vpost) acc st =
        load_atValues ld w filePath (vpre @ vpost) acc st) \<and>
   (resolver_contract w \<longrightarrow> deps_clean (cache st) \<longrightarrow> load n w st filePath = Some (r, st') \<longrightarrow>
      deps_clean (cache st') \<and>
      (\<forall>res. r = Inr res \<longrightarrow> isIgnoredSpecifier s \<longrightarrow> s \<notin> set (dependencies res)))"
proof (intro conjI impI)
  show "isIgnoredSpecifier s \<longleftrightarrow> (\<exists>rest. s = ''http://'' @ rest \<or> s = ''https://'' @ rest)"
    unfolding isIgnoredSpecifier_def startsWith_iff by blast
next
  assume "isIgnoredSpecifier s"
  then show "load_atImports ld w filePath (pre @ Some s # post) acc st =
        load_atImports ld w filePath (pre @ post) acc st"
    by (rule load_atImports_skip)
next
  assume "isIgnoredSpecifier s"
  then show "load_atValues ld w filePath (vpre @ ValueImportDeclaration s imps # vpost) acc st =
        load_atValues ld w filePath (vpre @ vpost) acc st"
    by (rule load_atValues_skip)
next
  assume rc: "resolver_contract w" and dc: "deps_clean (cache st)"
    and run: "load n w st filePath = Some (r, st')"
  from run have "deps_clean (cache st') \<and> (\<forall>res. r = Inr res \<longrightarrow> no_remote res)"
  proof (cases rule: load_cases)
    case busy
    with dc show ?thesis by simp
  next
    case (run sb)
    from load'_deps_clean[OF rc _ run(2)] dc run(3) show ?thesis by simp
  qed
  then show "deps_clean (cache st')"
    and "\<forall>res. r = Inr res \<longrightarrow> isIgnoredSpecifier s \<longrightarrow> s \<notin> set (dependencies res)"
    unfolding no_remote_def by blast+
qed

text \<open>The remote \<open>@import\<close> of \<open>/a.css\<close> in the example.\<close>

theorem ignored_specifiers_skipped_witness:
  "isIgnoredSpecifier ''https://cdn/x.css'' \<and>
   load_atImports (load' (Suc 0) ex_world) ex_world ''/a.css''
       ([] @ Some ''https://cdn/x.css'' # [None, Some ''./b.css'']) ([], []) init_locator =
     load_atImports (load' (Suc 0) ex_world) ex_world ''/a.css''
       ([] @ [None, Some ''./b.css'']) ([], []) init_locator \<and>
   resolver_contract ex_world \<and> deps_clean (cache init_locator) \<and>
   (\<exists>res st'. load (Suc (Suc 0)) ex_world init_locator ''/a.css'' = Some (Inr res, st') \<and>
      deps_clean (cache st') \<and> ''https://cdn/x.css'' \<notin> set (dependencies res))"
proof -
  have ign: "isIgnoredSpecifier ''https://cdn/x.css''"
    by (simp add: isIgnoredSpecifier_def startsWith_def)
  have rc: "resolver_contract ex_world"
    by (simp add: resolver_contract_def ex_world_def isIgnoredSpecifier_def startsWith_def)
  have dc: "deps_clean (cache init_locator)"
    by (simp add: deps_clean_def init_locator_def)
  have "\<exists>res st'. load (Suc (Suc 0)) ex_world init_locator ''/a.css'' = Some (Inr res, st')"
    by (simp add: ex_eval)
  then obtain r1 s1 where run: "load (Suc (Suc 0)) ex_world init_locator ''/a.css'' = Some (Inr r1, s1)"
    by blast
  note inst = ignored_specifiers_skipped[where s="''https://cdn/x.css''" and w=ex_world
      and ld="load' (Suc 0) ex_world" and filePath="''/a.css''" and pre="[]"
      and post="[None, Some ''./b.css'']" and acc="([], [])" and st=init_locator
      and n="Suc (Suc 0)" and r="Inr r1" and st'=s1]
  have skip: "load_atImports (load' (Suc 0) ex_world) ex_world ''/a.css''
       ([] @ Some ''https://cdn/x.css'' # [None, Some ''./b.css'']) ([], []) init_locator =
     load_atImports (load' (Suc 0) ex_world) ex_world ''/a.css''
       ([] @ [None, Some ''./b.css'']) ([], []) init_locator"
    using inst ign by blast
  have out: "deps_clean (cache s1)" "''https://cdn/x.css'' \<notin> set (dependencies r1)"
    using inst ign rc dc run by blast+
  show ?thesis
    by (intro conjI exI[of _ r1] exI[of _ s1]) (fact ign skip rc dc run out)+
qed

section \<open>Loading a file again\<close>




section \<open>A dependency that was deleted\<close>

text \<open>
  Claim C10, as stated: with a dependency of the cached file deleted, the next \<open>load\<close>
  fails with the error of \<open>stat\<close> on that dependency and does not reload the file. In the
  SCSS example \<open>/b.scss\<close> is a dependency of the cached \<open>/a.scss\<close> and has no cache entry of
  its own. After it is deleted, \<open>isCacheOutdated\<close> returns \<open>true\<close> before it calls \<open>stat\<close>
  on it: \<open>/a.scss\<close> is read again, and the load fails with the error of the SCSS backend.
\<close>

theorem deleted_dependency_counterexample:
  "load (Suc 0) ex_scss_world init_locator ''/a.scss'' = Some (Inr ex_scss_result, ex_scss_cached) \<and>
   dependencies ex_scss_result = [''/b.scss''] \<and>
   stat ex_scss_deleted_world ''/b.scss'' = Inl (IOError ''/b.scss'') \<and>
   load (Suc 0) ex_scss_deleted_world ex_scss_cached ''/a.scss'' =
     Some (Inl (ExternalError ''stylesheet to import not found''),
           ex_scss_cached\<lparr>trace := trace ex_scss_cached @
              [Stat ''/a.scss'', Stat ''/a.scss'', ReadFile ''/a.scss'']\<rparr>)"
  by (simp add: ex_eval)

text \<open>
  Claim C10, amended. Let the file have a cache entry with the modification time the file
  has now, and let \<open>d\<close> be one of its dependencies such that every dependency listed before
  \<open>d\<close> has a cache entry with its present modification time, \<open>d\<close> has a cache entry, and
  \<open>stat\<close> fails on \<open>d\<close>. Then \<open>load\<close> fails with the error of that \<open>stat\<close>; it has called
  \<open>stat\<close> on the file and the dependencies up to \<open>d\<close>, has read nothing and has left the
  cache as it is.
\<close>

theorem deleted_dependency_stat_error:
  assumes "\<not> loading st" and "cache st filePath = Some entry"
    and "stat w filePath = Inr (mtime entry)"
    and "dependencies (result entry) = pre @ d # post"
    and "\<forall>p\<in>set pre. fresh w (cache st) p"
    and "cache st d \<noteq> None" and "stat w d = Inl e"
  shows "load (Suc n) w st filePath =
           Some (Inl e, st\<lparr>trace := trace st @ map Stat (filePath # pre @ [d])\<rparr>)"
proof -
  let ?s = "st\<lparr>loading := True\<rparr>"
  have "isCacheOutdated w filePath ?s =
      (Inl e, ?s\<lparr>trace := trace ?s @ map Stat (filePath # pre @ [d])\<rparr>)"
    using assms(2-7) by (simp add: isCacheOutdated_def do_stat_def dependencies_outdated_error)
  then have "load' (Suc n) w ?s filePath =
      Some (Inl e, ?s\<lparr>trace := trace ?s @ map Stat (filePath # pre @ [d])\<rparr>)"
    by (simp add: load_body_def)
  then show ?thesis
    using assms(1) locator_flag_roundtrip[OF assms(1)] by (simp add: load_def)
qed

text \<open>
  The example after a load of \<open>/m.css\<close>, which imports \<open>./b.css\<close> and \<open>./c.css\<close>, with
  \<open>/c.css\<close> deleted since.
\<close>

theorem deleted_dependency_stat_error_witness:
  "\<exists>res st1. load (Suc (Suc 0)) ex_world init_locator ''/m.css'' = Some (Inr res, st1) \<and>
     \<not> loading st1 \<and> cache st1 ''/m.css'' = Some \<lparr>mtime = 40, result = res\<rparr> \<and>
     stat ex_deleted_world ''/m.css'' = Inr 40 \<and>
     dependencies res = [''/b.css''] @ ''/c.css'' # [] \<and>
     fresh ex_deleted_world (cache st1) ''/b.css'' \<and> cache st1 ''/c.css'' \<noteq> None \<and>
     stat ex_deleted_world ''/c.css'' = Inl (IOError ''/c.css'') \<and>
     load (Suc 0) ex_deleted_world st1 ''/m.css'' =
       Some (Inl (IOError ''/c.css''),
             st1\<lparr>trace := trace st1 @ map Stat (''/m.css'' # [''/b.css''] @ [''/c.css''])\<rparr>)"
proof -
  have "\<exists>res st1. load (Suc (Suc 0)) ex_world init_locator ''/m.css'' = Some (Inr res, st1) \<and>
     \<not> loading st1 \<and> cache st1 ''/m.css'' = Some \<lparr>mtime = 40, result = res\<rparr> \<and>
     dependencies res = [''/b.css''] @ ''/c.css'' # [] \<and>
     fresh ex_deleted_world (cache st1) ''/b.css'' \<and> cache st1 ''/c.css'' \<noteq> None"
    by (simp add: ex_eval fresh_def)
  then obtain r1 s1 where run: "load (Suc (Suc 0)) ex_world init_locator ''/m.css'' = Some (Inr r1, s1)"
    and nl: "\<not> loading s1" and ce: "cache s1 ''/m.css'' = Some \<lparr>mtime = 40, result = r1\<rparr>"
    and dp: "dependencies r1 = [''/b.css''] @ ''/c.css'' # []"
    and fb: "fresh ex_deleted_world (cache s1) ''/b.css''" and cb: "cache s1 ''/c.css'' \<noteq> None"
    by blast
  have sa: "stat ex_deleted_world ''/m.css'' = Inr 40"
    by (simp add: ex_deleted_world_def ex_world_def)
  have sb: "stat ex_deleted_world ''/c.css'' = Inl (IOError ''/c.css'')"
    by (simp add: ex_deleted_world_def)
  have fails: "load (Suc 0) ex_deleted_world s1 ''/m.css'' =
       Some (Inl (IOError ''/c.css''),
             s1\<lparr>trace := trace s1 @ map Stat (''/m.css'' # [''/b.css''] @ [''/c.css''])\<rparr>)"
    by (rule deleted_dependency_stat_error[where entry="\<lparr>mtime = 40, result = r1\<rparr>" and post="[]"])
      (use nl ce sa dp fb cb sb in simp_all)
  show ?thesis
    by (intro exI[of _ r1] exI[of _ s1] conjI) (fact run nl ce sa dp fb cb sb fails)+
qed

section \<open>Import cycles\<close>

text \<open>
  Claim C1, as stated: the load of a sheet that imports itself terminates, because on
  re-entry the cache check returns at once. \<open>_load\<close> writes the cache entry of a file in its
  last statement, so on re-entry the file has no entry, \<open>isCacheOutdated\<close> returns \<open>true\<close>
  and the file is read and its import followed again. For the sheet \<open>/self.css\<close>, whose
  only \<open>@import\<close> is itself, \<open>load\<close> does not return, whatever the depth allowed.
\<close>

theorem self_import_diverges_counterexample:
  "\<forall>n. load n ex_cycle_world init_locator ''/self.css'' = None"
proof
  fix n
  have "load' n ex_cycle_world (init_locator\<lparr>loading := True\<rparr>) ''/self.css'' = None"
    by (rule ex_self_diverges) (simp add: init_locator_def)
  then show "load n ex_cycle_world init_locator ''/self.css'' = None"
    by (simp add: load_def init_locator_def)
qed

text \<open>
  Claim C1, amended. Let \<open>C\<close> be a set of files without cache entry, each with a specifier
  in its sheet that resolves to a file of \<open>C\<close>: a sheet that imports itself, or sheets on an
  import cycle, before their first load. Then no \<open>load\<close> of a file of \<open>C\<close> returns a
  result: it fails on an error met on the way, or it does not return. Whatever is loaded,
  the files of \<open>C\<close> remain without cache entry, so that the cache check on re-entry finds
  no entry and reports the file outdated without a call. A load that does return a result
  returns dependencies without the file itself.
\<close>

theorem import_cycle_never_returns:
  assumes "\<forall>p\<in>C. cache st p = None"
    and "\<forall>p\<in>C. \<exists>q\<in>C. q \<in> set (import_targets w p)"
  shows "(filePath \<in> C \<longrightarrow> load n w st filePath \<noteq> Some (Inr res, st')) \<and>
         (load n w st p = Some (r, st') \<longrightarrow> (\<forall>q\<in>C. cache st' q = None)) \<and>
         (filePath \<in> C \<longrightarrow> isCacheOutdated w filePath st = (Inr True, st)) \<and>
         (reachable st \<longrightarrow> load n w st p = Some (Inr res, st') \<longrightarrow> p \<notin> set (dependencies res))"
proof (intro conjI impI)
  assume f: "filePath \<in> C"
  show "load n w st filePath \<noteq> Some (Inr res, st')"
  proof
    assume "load n w st filePath = Some (Inr res, st')"
    then obtain sb where run: "load' n w (st\<lparr>loading := True\<rparr>) filePath = Some (Inr res, sb)"
      by (cases rule: load_cases) auto
    have "\<forall>p\<in>C. cache (st\<lparr>loading := True\<rparr>) p = None" using assms(1) by simp
    from load'_cycle[OF assms(2) this run] f show False by simp
  qed
  show "isCacheOutdated w filePath st = (Inr True, st)"
    using assms(1) f by (simp add: isCacheOutdated_uncached)
next
  assume "load n w st p = Some (r, st')"
  then show "\<forall>q\<in>C. cache st' q = None"
  proof (cases rule: load_cases)
    case busy
    with assms(1) show ?thesis by simp
  next
    case (run sb)
    have "\<forall>p\<in>C. cache (st\<lparr>loading := True\<rparr>) p = None" using assms(1) by simp
    from load'_cycle[OF assms(2) this run(2)] run(3) show ?thesis by simp
  qed
next
  assume re: "reachable st" and l: "load n w st p = Some (Inr res, st')"
  from l obtain sb where run: "load' n w (st\<lparr>loading := True\<rparr>) p = Some (Inr res, sb)"
    by (cases rule: load_cases) auto
  have "cache_ok (cache (st\<lparr>loading := True\<rparr>))" using reachable_cache_ok[OF re] by simp
  from load'_result_ok[OF this run] show "p \<notin> set (dependencies res)"
    by (simp add: result_ok_def)
qed

text \<open>
  The sheet that imports itself, and the sheets \<open>/p.css\<close> and \<open>/q.css\<close> that import each
  other, one with \<open>@import\<close> and one with \<open>@value ... from\<close>.
\<close>

theorem import_cycle_never_returns_witness:
  "cache init_locator ''/self.css'' = None \<and>
   ''/self.css'' \<in> set (import_targets ex_cycle_world ''/self.css'') \<and>
   (\<forall>n res st'. load n ex_cycle_world init_locator ''/self.css'' \<noteq> Some (Inr res, st')) \<and>
   cache init_locator ''/p.css'' = None \<and> cache init_locator ''/q.css'' = None \<and>
   ''/q.css'' \<in> set (import_targets ex_cycle_world ''/p.css'') \<and>
   ''/p.css'' \<in> set (import_targets ex_cycle_world ''/q.css'') \<and>
   (\<forall>n res st'. load n ex_cycle_world init_locator ''/p.css'' \<noteq> Some (Inr res, st')) \<and>
   isCacheOutdated ex_cycle_world ''/p.css'' init_locator = (Inr True, init_locator)"
proof -
  have c0: "cache init_locator p = None" for p by (simp add: init_locator_def)
  have t1: "''/self.css'' \<in> set (import_targets ex_cycle_world ''/self.css'')"
    by (simp add: import_targets_def sheet_of_def sheet_specs_def ex_eval)
  have t2: "''/q.css'' \<in> set (import_targets ex_cycle_world ''/p.css'')"
    by (simp add: import_targets_def sheet_of_def sheet_specs_def ex_eval)
  have t3: "''/p.css'' \<in> set (import_targets ex_cycle_world ''/q.css'')"
    by (simp add: import_targets_def sheet_of_def sheet_specs_def ex_eval)
  have h1: "\<forall>p\<in>{''/self.css''}. cache init_locator p = None" by (simp add: c0)
  have h2: "\<forall>p\<in>{''/self.css''}. \<exists>q\<in>{''/self.css''}. q \<in> set (import_targets ex_cycle_world p)"
    using t1 by simp
  have k1: "\<forall>p\<in>{''/p.css'', ''/q.css''}. cache init_locator p = None" by (simp add: c0)
  have k2: "\<forall>p\<in>{''/p.css'', ''/q.css''}. \<exists>q\<in>{''/p.css'', ''/q.css''}.
      q \<in> set (import_targets ex_cycle_world p)"
    using t2 t3 by simp
  have r1: "load n ex_cycle_world init_locator ''/self.css'' \<noteq> Some (Inr res, st')" for n res st'
    using import_cycle_never_returns[OF h1 h2, where filePath="''/self.css''" and n=n and res=res
        and st'=st']
    by simp
  have r2: "load n ex_cycle_world init_locator ''/p.css'' \<noteq> Some (Inr res, st')" for n res st'
    using import_cycle_never_returns[OF k1 k2, where filePath="''/p.css''" and n=n and res=res
        and st'=st']
    by simp
  have r3: "isCacheOutdated ex_cycle_world ''/p.css'' init_locator = (Inr True, init_locator)"
    using import_cycle_never_returns[OF k1 k2, where filePath="''/p.css''"]
    by simp
  show ?thesis
    by (intro conjI allI) (fact c0 t1 t2 t3 r1 r2 r3)+
qed

end
